theory Spec2Isabelle
  imports Complex_Main "HOL-Library.Word" "HOL-Library.Sublist"
begin

section \<open>Strings and numbers of the source language\<close>

text \<open>
  A JavaScript string is a sequence of UTF-16 code units and \<open>length\<close> counts code
  units, so a string is a list of 16-bit words. \<open>js\<close> writes an ASCII literal of the
  source as such a list. Scores and distances are JavaScript numbers; they are read as
  real numbers (the comparisons and the subtraction of the source are the real ones on
  every finite double that is compared with \<open>0.25\<close>). Chunk ids are the values of an
  \<open>INT\<close> column, hence integers.
\<close>

type_synonym jschar = "16 word"
type_synonym jsstring = "jschar list"

definition js :: "string \<Rightarrow> jsstring" where
  "js s = map of_char s"

text \<open>The white space of \<open>String.prototype.trim\<close> and of the regular expression class \<open>\s\<close>.\<close>

definition isWhiteSpace :: "jschar \<Rightarrow> bool" where
  "isWhiteSpace c \<longleftrightarrow>
     c = 0x09 \<or> c = 0x0A \<or> c = 0x0B \<or> c = 0x0C \<or> c = 0x0D \<or> c = 0x20 \<or> c = 0xA0 \<or>
     c = 0x1680 \<or> (0x2000 \<le> c \<and> c \<le> 0x200A) \<or> c = 0x2028 \<or> c = 0x2029 \<or>
     c = 0x202F \<or> c = 0x205F \<or> c = 0x3000 \<or> c = 0xFEFF"

abbreviation nonws :: "jsstring \<Rightarrow> jsstring" where
  "nonws s \<equiv> filter (\<lambda>c. \<not> isWhiteSpace c) s"

definition trim :: "jsstring \<Rightarrow> jsstring" where
  "trim s = rev (dropWhile isWhiteSpace (rev (dropWhile isWhiteSpace s)))"

text \<open>\<open>Array.prototype.join\<close>.\<close>

fun join :: "jsstring \<Rightarrow> jsstring list \<Rightarrow> jsstring" where
  "join sep [] = []"
| "join sep [x] = x"
| "join sep (x # y # ys) = x @ sep @ join sep (y # ys)"

text \<open>The decimal text of an integer, as a template literal prints a number.\<close>

definition digitChar :: "nat \<Rightarrow> jschar" where
  "digitChar d = of_nat (48 + d)"

fun digitsOf :: "nat \<Rightarrow> jsstring" where
  "digitsOf n = (if n < 10 then [digitChar n] else digitsOf (n div 10) @ [digitChar (n mod 10)])"

declare digitsOf.simps [simp del]

definition numberToString :: "int \<Rightarrow> jsstring" where
  "numberToString i = (if i < 0 then js ''-'' @ digitsOf (nat (- i)) else digitsOf (nat i))"


section \<open>Retrieval and answering (src/lib/rag.ts)\<close>

record RetrievedChunk =
  celex :: jsstring
  doc_id :: jsstring
  chunk_id :: int
  content :: jsstring
  score :: real

definition cosineScoreFromDistance :: "real \<Rightarrow> real" where
  "cosineScoreFromDistance distance = 1 - distance"

definition formatCitation :: "jsstring \<Rightarrow> int \<Rightarrow> jsstring" where
  "formatCitation cx chunkId = js ''#'' @ cx @ js '':'' @ numberToString chunkId"

definition buildContext :: "RetrievedChunk list \<Rightarrow> jsstring" where
  "buildContext chunks =
     join (js [CHR 0x0A, CHR 0x0A])
       (map (\<lambda>c. js ''['' @ formatCitation (celex c) (chunk_id c) @ js '']'' @ js [CHR 0x0A] @ content c)
          chunks)"

text \<open>
  The embedding service, the database and the chat model are outside the program. A
  value of \<open>services\<close> fixes what they answer: \<open>searchRows q k\<close> is what embedding \<open>q\<close> and
  running the nearest-neighbour query with \<open>LIMIT k\<close> gives (the rows already mapped to
  chunks), \<open>chatContent sys usr\<close> is \<open>choices[0]?.message?.content\<close> of the completion.
  Either may throw. Every function that calls them also returns the requests it made,
  in order.
\<close>

datatype error =
    ServiceError | ValidationError | NetworkError | RetriesExhausted | HttpFailure nat
  | FileError | EmbedError | DbError

datatype request = Retrieve jsstring int | Complete jsstring jsstring

record services =
  searchRows :: "jsstring \<Rightarrow> int \<Rightarrow> error + RetrievedChunk list"
  chatContent :: "jsstring \<Rightarrow> jsstring \<Rightarrow> error + jsstring option"

definition retrieve :: "services \<Rightarrow> jsstring \<Rightarrow> int option \<Rightarrow> request list \<times> (error + RetrievedChunk list)" where
  "retrieve sv queryText kopt =
     (let k = (case kopt of None \<Rightarrow> 5 | Some k' \<Rightarrow> k')
      in ([Retrieve queryText k], searchRows sv queryText k))"

definition abstainText :: jsstring where
  "abstainText = js ''Nu '' @ [0x219] @ js ''tiu. Nu am suficiente informa'' @ [0x21B]
                 @ js ''ii din contextul recuperat.''"

definition systemPrompt :: jsstring where
  "systemPrompt = js ''Answer STRICTLY from the provided context. If the context is insufficient, say you don''
     @ [0x27] @ js ''t know. Cite using the format [#CELEX:chunkId]. Answer in Romanian.''"

definition userMessage :: "jsstring \<Rightarrow> jsstring \<Rightarrow> jsstring" where
  "userMessage question context =
     [0xCE] @ js ''ntrebare:'' @ js [CHR 0x0A] @ question @ js [CHR 0x0A, CHR 0x0A]
     @ js ''Context:'' @ js [CHR 0x0A] @ context"

definition completionText :: "jsstring option \<Rightarrow> jsstring" where
  "completionText c = (case c of None \<Rightarrow> [] | Some t \<Rightarrow> trim t)"

record AnswerResult =
  answer_text :: jsstring
  sources :: "jsstring list"
  sourceEntries :: "(jsstring \<times> real) list"

definition belowThreshold :: "RetrievedChunk list \<Rightarrow> bool" where
  "belowThreshold chunks \<longleftrightarrow> (case chunks of [] \<Rightarrow> True | c # _ \<Rightarrow> score c < 0.25)"

definition answer :: "services \<Rightarrow> jsstring \<Rightarrow> request list \<times> (error + AnswerResult)" where
  "answer sv query =
     (case retrieve sv query (Some 5) of
        (reqs, Inl e) \<Rightarrow> (reqs, Inl e)
      | (reqs, Inr chunks) \<Rightarrow>
          if belowThreshold chunks
          then (reqs, Inr \<lparr>answer_text = abstainText, sources = [], sourceEntries = []\<rparr>)
          else
            let context = buildContext chunks;
                usr = userMessage query context
            in (case chatContent sv systemPrompt usr of
                  Inl e \<Rightarrow> (reqs @ [Complete systemPrompt usr], Inl e)
                | Inr c \<Rightarrow>
                    let entries = map (\<lambda>c. (formatCitation (celex c) (chunk_id c), score c)) chunks
                    in (reqs @ [Complete systemPrompt usr],
                        Inr \<lparr>answer_text = completionText c, sources = map fst entries,
                             sourceEntries = entries\<rparr>)))"

record GeneratedAnswer =
  answerText :: jsstring
  answerSources :: "(jsstring \<times> int \<times> real) list"

definition generateAnswer :: "services \<Rightarrow> jsstring \<Rightarrow> int option \<Rightarrow> request list \<times> (error + GeneratedAnswer)" where
  "generateAnswer sv question kopt =
     (let k = (case kopt of None \<Rightarrow> 10 | Some k' \<Rightarrow> k')
      in case retrieve sv question (Some k) of
        (reqs, Inl e) \<Rightarrow> (reqs, Inl e)
      | (reqs, Inr chunks) \<Rightarrow>
          if belowThreshold chunks
          then (reqs, Inr \<lparr>answerText = abstainText, answerSources = []\<rparr>)
          else
            let context = buildContext chunks;
                usr = userMessage question context
            in (case chatContent sv systemPrompt usr of
                  Inl e \<Rightarrow> (reqs @ [Complete systemPrompt usr], Inl e)
                | Inr c \<Rightarrow>
                    (reqs @ [Complete systemPrompt usr],
                     Inr \<lparr>answerText = completionText c,
                          answerSources = map (\<lambda>c. (celex c, chunk_id c, score c)) chunks\<rparr>)))"


section \<open>The chat route (src/app/api/chat/route.ts)\<close>

text \<open>
  The request body after \<open>req.json()\<close>: each of the two fields the schema reads is
  absent, a number, a string, or a value of another JSON type.
\<close>

datatype json = JUndefined | JNumber real | JString jsstring | JOther

record body =
  message :: json
  k_field :: json

definition parseBody :: "body \<Rightarrow> error + (jsstring \<times> int option)" where
  "parseBody b =
     (case message b of
        JString m \<Rightarrow>
          if length m < 1 then Inl ValidationError
          else (case k_field b of
                  JUndefined \<Rightarrow> Inr (m, None)
                | JNumber r \<Rightarrow>
                    if r = of_int \<lfloor>r\<rfloor> \<and> 1 \<le> r \<and> r \<le> 20 then Inr (m, Some \<lfloor>r\<rfloor>)
                    else Inl ValidationError
                | _ \<Rightarrow> Inl ValidationError)
      | _ \<Rightarrow> Inl ValidationError)"

datatype response = Response200 GeneratedAnswer | Response400 error

definition POST :: "services \<Rightarrow> body \<Rightarrow> request list \<times> response" where
  "POST sv b =
     (case parseBody b of
        Inl e \<Rightarrow> ([], Response400 e)
      | Inr (m, kopt) \<Rightarrow>
          (case generateAnswer sv m (Some (case kopt of None \<Rightarrow> 10 | Some k' \<Rightarrow> k')) of
             (reqs, Inl e) \<Rightarrow> (reqs, Response400 e)
           | (reqs, Inr a) \<Rightarrow> (reqs, Response200 a)))"

definition requestedK :: "request list \<Rightarrow> int list" where
  "requestedK reqs = concat (map (\<lambda>r. case r of Retrieve _ k' \<Rightarrow> [k'] | Complete _ _ \<Rightarrow> []) reqs)"



section \<open>Chunking (src/scripts/db_ping.ts, the seed script)\<close>

datatype Token = Heading (tokenText: jsstring) | TextToken (tokenText: jsstring)

definition SPACE :: jschar where "SPACE = 0x20"
definition TAB :: jschar where "TAB = 0x09"
definition LF :: jschar where "LF = 0x0A"
definition FF :: jschar where "FF = 0x0C"
definition CR :: jschar where "CR = 0x0D"
definition NBSP :: jschar where "NBSP = 0xA0"

text \<open>
  \<open>s.replace(/[...]+/g, r)\<close> for a character class: every maximal run of characters of
  the class becomes \<open>r\<close>.
\<close>

function replaceRuns :: "(jschar \<Rightarrow> bool) \<Rightarrow> jsstring \<Rightarrow> jsstring \<Rightarrow> jsstring" where
  "replaceRuns p r [] = []"
| "replaceRuns p r (c # cs) =
     (if p c then r @ replaceRuns p r (dropWhile p cs) else c # replaceRuns p r cs)"
  by pat_completeness auto
termination
  by (relation "measure (\<lambda>(p, r, s). length s)") (auto simp: length_dropWhile_le less_Suc_eq_le)

text \<open>\<open>s.replace(/\n{3,}/g, '\n\n')\<close>: a run of three or more line feeds becomes two.\<close>

function squeezeNewlines :: "jsstring \<Rightarrow> jsstring" where
  "squeezeNewlines [] = []"
| "squeezeNewlines (c # cs) =
     (if c = LF
      then (let run = c # takeWhile (\<lambda>x. x = LF) cs
            in (if 3 \<le> length run then [LF, LF] else run)
               @ squeezeNewlines (dropWhile (\<lambda>x. x = LF) cs))
      else c # squeezeNewlines cs)"
  by pat_completeness auto
termination
  by (relation "measure length") (auto simp: length_dropWhile_le less_Suc_eq_le)

definition cleanText :: "jsstring \<Rightarrow> jsstring" where
  "cleanText s =
     trim (squeezeNewlines
       (replaceRuns (\<lambda>c. c = CR \<or> c = FF) [LF]
         (replaceRuns (\<lambda>c. c = SPACE \<or> c = TAB) [SPACE]
           (map (\<lambda>c. if c = NBSP then SPACE else c) s))))"

text \<open>
  The split of \<open>sentenceSplit\<close>: a separator is a run of white space that follows one of
  \<open>. ! ?\<close> and is followed by a capital letter of the class of the source: \<open>A\<close> to \<open>Z\<close> and five
  Romanian capitals (code units \<open>CE\<close>, \<open>C2\<close>, \<open>102\<close>, \<open>218\<close>, \<open>21A\<close>). \<open>acc\<close> is the part read
  so far.
\<close>

definition isSentenceEnd :: "jschar \<Rightarrow> bool" where
  "isSentenceEnd c \<longleftrightarrow> c = 0x2E \<or> c = 0x21 \<or> c = 0x3F"

definition isSentenceStart :: "jschar \<Rightarrow> bool" where
  "isSentenceStart c \<longleftrightarrow>
     (0x41 \<le> c \<and> c \<le> 0x5A) \<or> c = 0xCE \<or> c = 0xC2 \<or> c = 0x102 \<or> c = 0x218 \<or> c = 0x21A"

function splitSentences :: "jsstring \<Rightarrow> jsstring \<Rightarrow> jsstring list" where
  "splitSentences acc [] = [acc]"
| "splitSentences acc (c # cs) =
     (if isWhiteSpace c \<and> acc \<noteq> [] \<and> isSentenceEnd (last acc)
         \<and> (case dropWhile isWhiteSpace cs of [] \<Rightarrow> False | u # _ \<Rightarrow> isSentenceStart u)
      then acc # splitSentences [] (dropWhile isWhiteSpace cs)
      else splitSentences (acc @ [c]) cs)"
  by pat_completeness auto
termination
  by (relation "measure (\<lambda>(acc, s). length s)") (auto simp: length_dropWhile_le less_Suc_eq_le)

definition sentenceSplit :: "jsstring \<Rightarrow> jsstring list" where
  "sentenceSplit paragraph =
     (let t = trim (replaceRuns isWhiteSpace [SPACE] paragraph)
      in if t = [] then []
         else (let parts = splitSentences [] t
               in if length parts \<le> 1 then [t] else parts))"

text \<open>
  The chunker's state is the buffer \<open>current\<close> and the list \<open>chunks\<close>. \<open>flush\<close> is the
  closure of the source. The sizes are character counts.
\<close>

definition flush :: "jsstring \<times> jsstring list \<Rightarrow> jsstring \<times> jsstring list" where
  "flush st =
     (let c = cleanText (fst st)
      in ([], if c \<noteq> [] then snd st @ [c] else snd st))"

definition addHeading :: "jsstring \<Rightarrow> jsstring \<times> jsstring list \<Rightarrow> jsstring \<times> jsstring list" where
  "addHeading h st =
     (let st1 = (if 0 < length (trim (fst st)) then flush st else st);
          current = fst st1
      in (current @ (if current \<noteq> [] then [LF] else []) @ h @ [LF], snd st1))"

text \<open>
  The \<open>while\<close> loop that cuts a long sentence: \<open>addSlice\<close> is what its body does to the
  state with the slice cut at \<open>start\<close>. With \<open>maxSize = 0\<close> the position \<open>start\<close> never
  moves and the loop does not end; the value \<open>None\<close> stands for that.
\<close>

definition addSlice ::
  "nat \<Rightarrow> nat \<Rightarrow> jsstring \<Rightarrow> jsstring \<times> jsstring list \<Rightarrow> jsstring \<times> jsstring list" where
  "addSlice minSize maxSize sl st =
     (let st1 = (if length (fst st) + length sl + 1 > maxSize \<and> length (fst st) \<ge> minSize
                 then flush st else st);
          current = fst st1
      in (current @ (if current \<noteq> [] then [SPACE] else []) @ sl, snd st1))"

partial_function (option) hardSplit ::
  "jsstring \<Rightarrow> nat \<Rightarrow> nat \<Rightarrow> nat \<Rightarrow> jsstring \<times> jsstring list \<Rightarrow> (jsstring \<times> jsstring list) option"
where
  "hardSplit s minSize maxSize start st =
     (if start < length s
      then (let end = min (start + maxSize) (length s);
                slice = take (end - start) (drop start s)
            in hardSplit s minSize maxSize end (addSlice minSize maxSize slice st))
      else Some st)"

declare hardSplit.simps [code]

definition addSentence ::
  "nat \<Rightarrow> nat \<Rightarrow> jsstring \<Rightarrow> jsstring \<times> jsstring list \<Rightarrow> (jsstring \<times> jsstring list) option" where
  "addSentence minSize maxSize s st =
     (let current = fst st;
          tryAdd = (if length current > 0 then current @ [SPACE] @ s else s)
      in if length tryAdd \<le> maxSize then Some (tryAdd, snd st)
         else if length current \<ge> minSize then Some (s, snd (flush st))
         else if length s \<ge> maxSize then hardSplit s minSize maxSize 0 st
         else Some (s, snd (if current \<noteq> [] then flush st else st)))"

fun addSentences ::
  "nat \<Rightarrow> nat \<Rightarrow> jsstring list \<Rightarrow> jsstring \<times> jsstring list \<Rightarrow> (jsstring \<times> jsstring list) option" where
  "addSentences minSize maxSize [] st = Some st"
| "addSentences minSize maxSize (s # ss) st =
     (case addSentence minSize maxSize s st of
        None \<Rightarrow> None
      | Some st' \<Rightarrow> addSentences minSize maxSize ss st')"

definition addToken ::
  "nat \<Rightarrow> nat \<Rightarrow> Token \<Rightarrow> jsstring \<times> jsstring list \<Rightarrow> (jsstring \<times> jsstring list) option" where
  "addToken minSize maxSize t st =
     (case t of
        Heading h \<Rightarrow> Some (addHeading h st)
      | TextToken b \<Rightarrow> addSentences minSize maxSize (sentenceSplit b) st)"

fun addTokens ::
  "nat \<Rightarrow> nat \<Rightarrow> Token list \<Rightarrow> jsstring \<times> jsstring list \<Rightarrow> (jsstring \<times> jsstring list) option" where
  "addTokens minSize maxSize [] st = Some st"
| "addTokens minSize maxSize (t # ts) st =
     (case addToken minSize maxSize t st of
        None \<Rightarrow> None
      | Some st' \<Rightarrow> addTokens minSize maxSize ts st')"

definition buildChunks :: "Token list \<Rightarrow> nat \<Rightarrow> nat \<Rightarrow> jsstring list option" where
  "buildChunks tokens minSize maxSize =
     (case addTokens minSize maxSize tokens ([], []) of
        None \<Rightarrow> None
      | Some st \<Rightarrow> Some (snd (if trim (fst st) \<noteq> [] then flush st else st)))"


section \<open>Status markers (src/scripts/db_ping.ts)\<close>

text \<open>
  The marker expressions are sequences of single characters, \<open>\s+\<close>, \<open>\s*\<close> and one
  optional character, so a regular expression is a list of such atoms. \<open>matchHere\<close>
  says whether the expression matches at the start of the string, \<open>regexTest\<close> whether
  it matches somewhere (\<open>RegExp.prototype.test\<close>).
\<close>

datatype atom = One "jschar \<Rightarrow> bool" | Plus "jschar \<Rightarrow> bool" | Star "jschar \<Rightarrow> bool"
  | Opt "jschar \<Rightarrow> bool"

fun matchHere :: "atom list \<Rightarrow> jsstring \<Rightarrow> bool" where
  "matchHere [] s = True"
| "matchHere (One p # as) [] = False"
| "matchHere (One p # as) (c # cs) = (p c \<and> matchHere as cs)"
| "matchHere (Plus p # as) [] = False"
| "matchHere (Plus p # as) (c # cs) = (p c \<and> (matchHere (Plus p # as) cs \<or> matchHere as cs))"
| "matchHere (Star p # as) [] = matchHere as []"
| "matchHere (Star p # as) (c # cs) = ((p c \<and> matchHere (Star p # as) cs) \<or> matchHere as (c # cs))"
| "matchHere (Opt p # as) [] = matchHere as []"
| "matchHere (Opt p # as) (c # cs) = ((p c \<and> matchHere as cs) \<or> matchHere as (c # cs))"

fun regexTest :: "atom list \<Rightarrow> jsstring \<Rightarrow> bool" where
  "regexTest re [] = matchHere re []"
| "regexTest re (c # cs) = (matchHere re (c # cs) \<or> regexTest re cs)"

text \<open>
  The flag \<open>i\<close> compares the canonical (upper case) forms of two characters. The markers
  hold ASCII characters and the letters \<open>EE\<close> and \<open>103\<close>; no character other than the two
  cases of such a letter has the letter's capital as its canonical form, so
  \<open>upperCase\<close> needs to know these letters only.
\<close>

definition upperCase :: "jschar \<Rightarrow> jschar" where
  "upperCase c =
     (if 0x61 \<le> c \<and> c \<le> 0x7A then c - 0x20
      else if c = 0xEE then 0xCE
      else if c = 0x103 then 0x102
      else c)"

definition ci :: "jsstring \<Rightarrow> atom list" where
  "ci lit = map (\<lambda>p. One (\<lambda>x. upperCase x = upperCase p)) lit"

definition ws1 :: "atom list" where
  "ws1 = [Plus isWhiteSpace]"

definition NO_LONGER_IN_FORCE_MARKERS :: "atom list list" where
  "NO_LONGER_IN_FORCE_MARKERS =
    [ci (js ''No'') @ ws1 @ ci (js ''longer'') @ ws1 @ ci (js ''in'') @ ws1 @ ci (js ''force''),
     ci (js ''Ceased'') @ ws1 @ ci (js ''to'') @ ws1 @ ci (js ''be'') @ ws1 @ ci (js ''in'') @ ws1
       @ ci (js ''force''),
     ci (js ''Nu'') @ ws1 @ ci (js ''mai'') @ ws1 @ ci (js ''este'') @ ws1 @ ci ([0xEE] @ js ''n'')
       @ ws1 @ ci (js ''vigoare''),
     ci (js ''Nu'') @ ws1 @ ci (js ''mai'') @ ws1 @ ci (js ''este'') @ ws1 @ ci (js ''in'') @ ws1
       @ ci (js ''vigoare''),
     ci (js ''abrogare'') @ ws1 @ ci (js ''implicit'' @ [0x103]),
     ci (js ''abrogat'') @ [Opt (\<lambda>x. upperCase x = upperCase 0x103)],
     ci (js ''End'') @ ws1 @ ci (js ''of'') @ ws1 @ ci (js ''validity'')]"

definition isDigit :: "jschar \<Rightarrow> bool" where
  "isDigit c \<longleftrightarrow> 0x30 \<le> c \<and> c \<le> 0x39"

definition endOfValidityRegex :: "atom list" where
  "endOfValidityRegex =
     ci (js ''Date of end of validity:'') @ [Star isWhiteSpace]
     @ [One isDigit, One isDigit] @ ci (js ''/'') @ [One isDigit, One isDigit] @ ci (js ''/'')
     @ [One isDigit, One isDigit, One isDigit, One isDigit]"

text \<open>The first group of the leftmost match: the ten characters of the date.\<close>

fun endOfValidityMatch :: "jsstring \<Rightarrow> jsstring option" where
  "endOfValidityMatch [] = None"
| "endOfValidityMatch (c # cs) =
     (if matchHere endOfValidityRegex (c # cs)
      then Some (take 10 (dropWhile isWhiteSpace (drop 24 (c # cs))))
      else endOfValidityMatch cs)"

record Validity =
  matched :: bool
  endOfValidity :: "jsstring option"

definition isNoLongerInForce :: "jsstring \<Rightarrow> Validity" where
  "isNoLongerInForce html =
     (if \<not> list_ex (\<lambda>re. regexTest re html) NO_LONGER_IN_FORCE_MARKERS
      then \<lparr>matched = False, endOfValidity = None\<rparr>
      else \<lparr>matched = True, endOfValidity = endOfValidityMatch html\<rparr>)"


section \<open>The store and the ingestion of one document (src/scripts/db_ping.ts)\<close>

text \<open>
  The table \<open>documents\<close> is the list of its rows, with the embedding of a type left
  open. \<open>insertRow\<close> is the statement \<open>INSERT \<dots> ON CONFLICT (celex, chunk_id) DO UPDATE\<close>:
  the unique index makes the row of the same \<open>(celex, chunk_id)\<close> the conflicting row.
\<close>

record 'v DocRow =
  row_celex :: jsstring
  row_doc_id :: jsstring
  row_chunk_id :: int
  row_content :: jsstring
  row_embedding :: 'v

fun insertRow :: "'v DocRow \<Rightarrow> 'v DocRow list \<Rightarrow> 'v DocRow list" where
  "insertRow r [] = [r]"
| "insertRow r (x # xs) =
     (if row_celex x = row_celex r \<and> row_chunk_id x = row_chunk_id r
      then x\<lparr>row_doc_id := row_doc_id r, row_content := row_content r,
              row_embedding := row_embedding r\<rparr> # xs
      else x # insertRow r xs)"

text \<open>
  What is outside the seed script: the network (\<open>fetchUrl url i\<close> is the outcome of the
  \<open>i\<close>-th try of \<open>url\<close>, a thrown error or a response), the mock switch and its fixture
  file, the HTML parser behind \<open>extractMainTokens\<close>, the embedding model, and the
  database server, which may raise on a statement (\<open>dbAccepts\<close>).
\<close>

record HttpResponse =
  status :: nat
  responseText :: jsstring

record 'v seedEnv =
  fetchUrl :: "jsstring \<Rightarrow> nat \<Rightarrow> error + HttpResponse"
  SEED_MOCK :: bool
  mockFile :: "error + jsstring"
  extractMainTokens :: "jsstring \<Rightarrow> Token list"
  embed :: "jsstring \<Rightarrow> error + 'v"
  dbAccepts :: "'v DocRow \<Rightarrow> bool"

fun embedAll :: "(jsstring \<Rightarrow> error + 'v) \<Rightarrow> jsstring list \<Rightarrow> error + 'v list" where
  "embedAll emb [] = Inr []"
| "embedAll emb (c # cs) =
     (case emb c of
        Inl e \<Rightarrow> Inl e
      | Inr v \<Rightarrow> (case embedAll emb cs of Inl e \<Rightarrow> Inl e | Inr vs \<Rightarrow> Inr (v # vs)))"

fun insertAll ::
  "('v DocRow \<Rightarrow> bool) \<Rightarrow> jsstring \<Rightarrow> int \<Rightarrow> (jsstring \<times> 'v) list \<Rightarrow> 'v DocRow list
     \<Rightarrow> error + 'v DocRow list" where
  "insertAll acc cx i [] tbl = Inr tbl"
| "insertAll acc cx i ((c, v) # rest) tbl =
     (let r = \<lparr>row_celex = cx, row_doc_id = cx, row_chunk_id = i, row_content = c,
                row_embedding = v\<rparr>
      in if acc r then insertAll acc cx (i + 1) rest (insertRow r tbl) else Inl DbError)"

text \<open>
  \<open>upsertDocument\<close> returns the error it throws, if any, and the table afterwards: the
  table as it was after \<open>ROLLBACK\<close>, the new one after \<open>COMMIT\<close>.
\<close>

definition upsertDocument ::
  "'v seedEnv \<Rightarrow> jsstring \<Rightarrow> jsstring list \<Rightarrow> 'v DocRow list \<Rightarrow> error option \<times> 'v DocRow list" where
  "upsertDocument env cx chunks tbl =
     (case embedAll (embed env) chunks of
        Inl e \<Rightarrow> (Some e, tbl)
      | Inr embeddings \<Rightarrow>
          (case insertAll (dbAccepts env) cx 0 (zip chunks embeddings) tbl of
             Inl e \<Rightarrow> (Some e, tbl)
           | Inr tbl' \<Rightarrow> (None, tbl')))"

fun fetchAttempts ::
  "(jsstring \<Rightarrow> nat \<Rightarrow> error + HttpResponse) \<Rightarrow> jsstring \<Rightarrow> nat \<Rightarrow> nat \<Rightarrow> error option
     \<Rightarrow> error + HttpResponse" where
  "fetchAttempts net url 0 i lastErr =
     Inl (case lastErr of None \<Rightarrow> RetriesExhausted | Some e \<Rightarrow> e)"
| "fetchAttempts net url (Suc n) i lastErr =
     (case net url i of
        Inl e \<Rightarrow> fetchAttempts net url n (Suc i) (Some e)
      | Inr res \<Rightarrow>
          if 200 \<le> status res \<and> status res < 300 then Inr res
          else if status res = 429 \<or> (500 \<le> status res \<and> status res \<le> 599)
          then fetchAttempts net url n (Suc i) lastErr
          else Inr res)"

definition fetchWithRetry ::
  "(jsstring \<Rightarrow> nat \<Rightarrow> error + HttpResponse) \<Rightarrow> jsstring \<Rightarrow> nat \<Rightarrow> error + HttpResponse" where
  "fetchWithRetry net url attempts = fetchAttempts net url attempts 0 None"

definition ok :: "HttpResponse \<Rightarrow> bool" where
  "ok res \<longleftrightarrow> 200 \<le> status res \<and> status res \<le> 299"

fun includesStr :: "jsstring \<Rightarrow> jsstring \<Rightarrow> bool" where
  "includesStr [] pat = (pat = [])"
| "includesStr (c # cs) pat = (prefix pat (c # cs) \<or> includesStr cs pat)"

fun replaceFirst :: "jsstring \<Rightarrow> jsstring \<Rightarrow> jsstring \<Rightarrow> jsstring" where
  "replaceFirst [] pat rep = (if pat = [] then rep else [])"
| "replaceFirst (c # cs) pat rep =
     (if prefix pat (c # cs) then rep @ drop (length pat) (c # cs)
      else c # replaceFirst cs pat rep)"

datatype Lang = ro | en

record DiscItem =
  item_celex :: jsstring
  item_title :: jsstring
  item_lang :: Lang
  item_work :: jsstring
  item_expression :: jsstring
  item_issued :: "jsstring option"
  urlTxt :: jsstring

text \<open>The first part of \<open>processItem\<close>: the markup of the record, or the error thrown.\<close>

definition fetchHtml :: "'v seedEnv \<Rightarrow> DiscItem \<Rightarrow> error + jsstring" where
  "fetchHtml env item =
     (if SEED_MOCK env then mockFile env
      else (case fetchWithRetry (fetchUrl env) (urlTxt item) 5 of
              Inl e \<Rightarrow> Inl e
            | Inr res \<Rightarrow>
                (case (if \<not> ok res \<and> includesStr (urlTxt item) (js ''/RO/'')
                       then fetchWithRetry (fetchUrl env)
                              (replaceFirst (urlTxt item) (js ''/RO/'') (js ''/EN/'')) 5
                       else Inr res) of
                   Inl e \<Rightarrow> Inl e
                 | Inr res' \<Rightarrow>
                     if \<not> ok res' then Inl (HttpFailure (status res'))
                     else Inr (responseText res'))))"

text \<open>The report of \<open>processItem\<close>, without the durations, which are clock readings.\<close>

record Report =
  report_celex :: jsstring
  chunkCount :: nat
  avgChunkLen :: nat

definition average :: "jsstring list \<Rightarrow> nat" where
  "average chunks =
     (if chunks = [] then 0
      else (2 * sum_list (map length chunks) + length chunks) div (2 * length chunks))"

text \<open>
  \<open>processItem\<close> returns the report or the error thrown, and the table afterwards;
  \<open>None\<close> is for a chunker that does not return.
\<close>

definition processItem ::
  "'v seedEnv \<Rightarrow> DiscItem \<Rightarrow> bool \<Rightarrow> 'v DocRow list \<Rightarrow> ((error + Report) \<times> 'v DocRow list) option" where
  "processItem env item noEmbed tbl =
     (case fetchHtml env item of
        Inl e \<Rightarrow> Some (Inl e, tbl)
      | Inr html \<Rightarrow>
          if matched (isNoLongerInForce html)
          then Some (Inr \<lparr>report_celex = item_celex item, chunkCount = 0, avgChunkLen = 0\<rparr>, tbl)
          else (case buildChunks (extractMainTokens env html) 800 1000 of
                  None \<Rightarrow> None
                | Some chunks \<Rightarrow>
                    let rep = \<lparr>report_celex = item_celex item, chunkCount = length chunks,
                               avgChunkLen = average chunks\<rparr>
                    in if \<not> noEmbed
                       then (case upsertDocument env (item_celex item) chunks tbl of
                               (Some e, tbl') \<Rightarrow> Some (Inl e, tbl')
                             | (None, tbl') \<Rightarrow> Some (Inr rep, tbl'))
                       else Some (Inr rep, tbl)))"


section \<open>Notions for the proofs about the chunker\<close>

text \<open>
  \<open>bounded_state\<close> and \<open>boundedToken\<close> are the invariant and the condition on a token
  of the size bound. \<open>core\<close> is \<open>cleanText\<close> before its \<open>trim\<close>, and \<open>splitsAtText\<close> says
  that a function on strings works on the two sides of a character that is not white
  space separately. \<open>openedBy c0 ch0\<close> holds of a state reached from the buffer \<open>c0\<close> and
  the chunks \<open>ch0\<close>: either no chunk was added and the buffer still begins with \<open>c0\<close>, or
  the first chunk added is the cleaned text of a buffer that began with \<open>c0\<close>.
\<close>

definition bounded_state :: "nat \<Rightarrow> jsstring \<times> jsstring list \<Rightarrow> bool" where
  "bounded_state mx st \<longleftrightarrow> length (fst st) \<le> mx \<and> (fst st = [] \<or> nonws (fst st) \<noteq> [])
     \<and> (\<forall>c\<in>set (snd st). length c \<le> mx)"

definition boundedToken :: "nat \<Rightarrow> Token \<Rightarrow> bool" where
  "boundedToken mx t \<longleftrightarrow>
     (case t of
        Heading h \<Rightarrow> length h < mx \<and> (\<exists>c\<in>set h. \<not> isWhiteSpace c)
      | TextToken b \<Rightarrow> (\<forall>s\<in>set (sentenceSplit b). length s < mx))"

definition splitsAtText :: "(jsstring \<Rightarrow> jsstring) \<Rightarrow> bool" where
  "splitsAtText f \<longleftrightarrow>
     f [] = [] \<and> (\<forall>xs x ys. \<not> isWhiteSpace x \<longrightarrow> f (xs @ x # ys) = f xs @ x # f ys)"

definition core :: "jsstring \<Rightarrow> jsstring" where
  "core s = squeezeNewlines
       (replaceRuns (\<lambda>c. c = CR \<or> c = FF) [LF]
         (replaceRuns (\<lambda>c. c = SPACE \<or> c = TAB) [SPACE]
           (map (\<lambda>c. if c = NBSP then SPACE else c) s)))"

definition closedBy :: "jsstring \<Rightarrow> jsstring list \<Rightarrow> jsstring list \<Rightarrow> bool" where
  "closedBy c0 ch0 chunks \<longleftrightarrow>
     (\<exists>new. chunks = ch0 @ new \<and> new \<noteq> [] \<and> (\<exists>ext. hd new = cleanText (c0 @ ext)))"

definition openedBy :: "jsstring \<Rightarrow> jsstring list \<Rightarrow> jsstring \<times> jsstring list \<Rightarrow> bool" where
  "openedBy c0 ch0 st \<longleftrightarrow> (snd st = ch0 \<and> prefix c0 (fst st)) \<or> closedBy c0 ch0 (snd st)"


section \<open>Sample inputs\<close>

text \<open>
  Concrete inputs on which the theorems below are run: two retrieved chunks and services
  that return them, a markup with a status marker behind a network that answers 404 for
  the Romanian page and 503 twice before 200 for the English one, a table that holds
  three chunks of one document, and two token sequences.
\<close>

definition demoChunk :: RetrievedChunk where
  "demoChunk = \<lparr>celex = js ''32016R0679'', doc_id = js ''32016R0679'', chunk_id = 1,
                 content = js ''Lorem ipsum'', score = 0.25\<rparr>"

definition demoChunk2 :: RetrievedChunk where
  "demoChunk2 = \<lparr>celex = js ''32016R0679'', doc_id = js ''32016R0679'', chunk_id = 2,
                 content = js ''Dolor sit amet'', score = 0.2\<rparr>"

definition demoServices :: services where
  "demoServices = \<lparr>searchRows = (\<lambda>q k. Inr (take (nat k) [demoChunk, demoChunk2])),
                    chatContent = (\<lambda>sys usr. Inr (Some (js '' ok '')))\<rparr>"

definition demoHtml :: jsstring where
  "demoHtml = js ''<p>NO  longer in'' @ [LF] @ js ''Force</p> Date of end of validity: 31/12/2020''"

definition demoItem :: DiscItem where
  "demoItem = \<lparr>item_celex = js ''32019R1234'', item_title = js ''t'', item_lang = ro,
                item_work = [], item_expression = [], item_issued = None,
                urlTxt = js ''https://eur-lex.europa.eu/legal-content/RO/TXT/?uri=CELEX:32019R1234''\<rparr>"

definition demoEnv :: "nat seedEnv" where
  "demoEnv = \<lparr>fetchUrl = (\<lambda>url i. if includesStr url (js ''/RO/'') then Inr \<lparr>status = 404, responseText = []\<rparr>
                                     else if i < 2 then Inr \<lparr>status = 503, responseText = []\<rparr>
                                     else Inr \<lparr>status = 200, responseText = demoHtml\<rparr>),
               SEED_MOCK = False, mockFile = Inl FileError,
               extractMainTokens = (\<lambda>html. [Heading (js ''Articolul 1''), TextToken html]),
               embed = (\<lambda>t. Inr (length t)),
               dbAccepts = (\<lambda>r. True)\<rparr>"

definition demoTable :: "nat DocRow list" where
  "demoTable = map (\<lambda>i. \<lparr>row_celex = js ''32019R1234'', row_doc_id = js ''32019R1234'',
                           row_chunk_id = i, row_content = js ''old'', row_embedding = 3\<rparr>) [0, 1, 2]"

definition demoTokens :: "Token list" where
  "demoTokens = [Heading (js ''Articolul 1''), TextToken (js ''Hello  world. This is it.''),
                 Heading (js ''Articolul 2''), TextToken (js ''More text.'')]"

definition longTokens :: "Token list" where
  "longTokens = [TextToken (js ''aa. Bbbbbbbbbb'')]"


section \<open>Similarity and citation tags\<close>



lemma digitChar_inj: "d < 10 \<Longrightarrow> e < 10 \<Longrightarrow> digitChar d = digitChar e \<Longrightarrow> d = e"
  by (simp add: digitChar_def word_of_nat_eq_iff take_bit_nat_eq_self)

lemma digitChar_range: "d < 10 \<Longrightarrow> 48 \<le> unat (digitChar d) \<and> unat (digitChar d) \<le> 57"
  by (simp add: digitChar_def unat_of_nat take_bit_nat_eq_self del: of_nat_add)

lemma digitsOf_nonempty: "digitsOf n \<noteq> []"
  by (subst digitsOf.simps) simp

lemma digitsOf_chars: "c \<in> set (digitsOf n) \<Longrightarrow> 48 \<le> unat c \<and> unat c \<le> 57"
proof (induction n arbitrary: c rule: digitsOf.induct)
  case (1 n)
  show ?case
  proof (cases "n < 10")
    case True
    with "1.prems" have "c = digitChar n" by (subst (asm) digitsOf.simps) simp
    with True show ?thesis using digitChar_range by blast
  next
    case False
    with "1.prems" have "c \<in> set (digitsOf (n div 10)) \<or> c = digitChar (n mod 10)"
      by (subst (asm) digitsOf.simps) auto
    then show ?thesis
    proof
      assume "c \<in> set (digitsOf (n div 10))"
      with False "1.IH" show ?thesis by blast
    next
      assume "c = digitChar (n mod 10)"
      moreover have "n mod 10 < 10" by simp
      ultimately show ?thesis using digitChar_range by blast
    qed
  qed
qed

lemma digitsOf_inj: "digitsOf m = digitsOf n \<Longrightarrow> m = n"
proof (induction m arbitrary: n rule: digitsOf.induct)
  case (1 m)
  show ?case
  proof (cases "m < 10")
    case mlt: True
    show ?thesis
    proof (cases "n < 10")
      case True
      with mlt "1.prems" show ?thesis
        by (simp add: digitsOf.simps [of m] digitsOf.simps [of n] digitChar_inj)
    next
      case False
      with mlt "1.prems" have "digitsOf (n div 10) = []"
        by (simp add: digitsOf.simps [of m] digitsOf.simps [of n])
      then show ?thesis by (simp add: digitsOf_nonempty)
    qed
  next
    case mge: False
    show ?thesis
    proof (cases "n < 10")
      case True
      with mge "1.prems" have "digitsOf (m div 10) = []"
        by (simp add: digitsOf.simps [of m] digitsOf.simps [of n])
      then show ?thesis by (simp add: digitsOf_nonempty)
    next
      case False
      with mge "1.prems" have a: "digitsOf (m div 10) = digitsOf (n div 10)"
        and b: "digitChar (m mod 10) = digitChar (n mod 10)"
        by (simp_all add: digitsOf.simps [of m] digitsOf.simps [of n])
      from a mge "1.IH" have "m div 10 = n div 10" by blast
      moreover from b have "m mod 10 = n mod 10" by (intro digitChar_inj) simp_all
      ultimately show ?thesis by (metis div_mult_mod_eq)
    qed
  qed
qed

lemma numberToString_chars:
  "c \<in> set (numberToString i) \<Longrightarrow> c = 45 \<or> (48 \<le> unat c \<and> unat c \<le> 57)"
  by (auto simp: numberToString_def js_def dest: digitsOf_chars split: if_splits)

lemma numberToString_no_colon: "58 \<notin> set (numberToString i)"
  using numberToString_chars [of 58 i] by auto

lemma numberToString_inj: "numberToString i = numberToString j \<Longrightarrow> i = j"
proof -
  assume eq: "numberToString i = numberToString j"
  have hd_digit: "hd (digitsOf n) \<noteq> 45" for n
  proof
    assume h: "hd (digitsOf n) = 45"
    have "hd (digitsOf n) \<in> set (digitsOf n)" by (simp add: digitsOf_nonempty)
    from digitsOf_chars [OF this] h show False by simp
  qed
  have neg_pos: "js ''-'' @ digitsOf a \<noteq> digitsOf b" for a b
  proof
    assume "js ''-'' @ digitsOf a = digitsOf b"
    then have "hd (digitsOf b) = hd (js ''-'' @ digitsOf a)" by simp
    then have "hd (digitsOf b) = 45" by (simp add: js_def)
    with hd_digit show False by blast
  qed
  show "i = j"
  proof (cases "i < 0"; cases "j < 0")
    assume "i < 0" "j < 0"
    with eq have "digitsOf (nat (- i)) = digitsOf (nat (- j))" by (simp add: numberToString_def)
    then have "nat (- i) = nat (- j)" by (rule digitsOf_inj)
    with \<open>i < 0\<close> \<open>j < 0\<close> show ?thesis by simp
  next
    assume "i < 0" "\<not> j < 0"
    with eq neg_pos show ?thesis by (simp add: numberToString_def)
  next
    assume "\<not> i < 0" "j < 0"
    with eq neg_pos [of "nat (- j)" "nat i"] show ?thesis by (simp add: numberToString_def)
  next
    assume "\<not> i < 0" "\<not> j < 0"
    with eq have "digitsOf (nat i) = digitsOf (nat j)" by (simp add: numberToString_def)
    then have "nat i = nat j" by (rule digitsOf_inj)
    with \<open>\<not> i < 0\<close> \<open>\<not> j < 0\<close> show ?thesis by simp
  qed
qed

lemma split_at_first:
  "c \<notin> set us \<Longrightarrow> c \<notin> set us' \<Longrightarrow> us @ c # vs = us' @ c # vs' \<Longrightarrow> us = us' \<and> vs = vs'"
proof (induction us arbitrary: us')
  case Nil
  then show ?case by (cases us') auto
next
  case (Cons u us)
  then show ?case by (cases us') auto
qed

lemma split_at_last:
  assumes "c \<notin> set vs" "c \<notin> set vs'" "us @ c # vs = us' @ c # vs'"
  shows "us = us' \<and> vs = vs'"
proof -
  from assms(3) have "rev (us @ c # vs) = rev (us' @ c # vs')" by simp
  then have "rev vs @ c # rev us = rev vs' @ c # rev us'" by simp
  moreover from assms have "c \<notin> set (rev vs)" "c \<notin> set (rev vs')" by simp_all
  ultimately have "rev vs = rev vs' \<and> rev us = rev us'" by (rule split_at_first [rotated 2])
  then show ?thesis by simp
qed

text \<open>
  Claim C9. The citation tag of a document id and a chunk index is \<open>#\<close>, the id, \<open>:\<close> and
  the index; two tags are equal only if both the ids and the indices are equal; the tag
  of \<open>32016R0679\<close> and \<open>3\<close> is \<open>#32016R0679:3\<close>.
\<close>

theorem formatCitation_injective:
  "formatCitation a i = js ''#'' @ a @ js '':'' @ numberToString i
   \<and> (formatCitation a i = formatCitation b j \<longleftrightarrow> a = b \<and> i = j)
   \<and> formatCitation (js ''32016R0679'') 3 = js ''#32016R0679:3''"
proof (intro conjI)
  show "formatCitation a i = js ''#'' @ a @ js '':'' @ numberToString i"
    by (simp add: formatCitation_def)
  show "formatCitation a i = formatCitation b j \<longleftrightarrow> a = b \<and> i = j"
  proof
    assume "formatCitation a i = formatCitation b j"
    then have "a @ 58 # numberToString i = b @ 58 # numberToString j"
      by (simp add: formatCitation_def js_def)
    with numberToString_no_colon have "a = b \<and> numberToString i = numberToString j"
      by (intro split_at_last) auto
    then show "a = b \<and> i = j" using numberToString_inj by blast
  qed simp
  show "formatCitation (js ''32016R0679'') 3 = js ''#32016R0679:3''"
    by (simp add: formatCitation_def numberToString_def digitsOf.simps digitChar_def js_def)
qed

theorem formatCitation_injective_witness:
  "formatCitation (js ''a:1'') 2 \<noteq> formatCitation (js ''a'') 12
   \<and> formatCitation (js ''a'') 12 = js ''#a:12''"
proof -
  have "js ''a:1'' \<noteq> js ''a''" by (simp add: js_def)
  moreover have "numberToString 12 = js ''12''"
    by (simp add: numberToString_def digitsOf.simps digitChar_def js_def)
  ultimately show ?thesis
    using formatCitation_injective [of "js ''a:1''" 2 "js ''a''" 12]
      formatCitation_injective [of "js ''a''" 12 "js ''a''" 12]
    by (simp add: js_def)
qed

section \<open>The context and the answer\<close>

lemma join_append:
  "join sep (xs @ y # ys) =
     (if xs = [] then [] else join sep xs @ sep) @ y @ (if ys = [] then [] else sep @ join sep ys)"
proof (induction sep xs rule: join.induct)
  case (1 sep)
  show ?case by (cases ys) simp_all
next
  case (2 sep x)
  show ?case by (cases ys) simp_all
next
  case (3 sep x y' ys')
  then show ?case by simp
qed

text \<open>
  Claim C10. The context holds, for every retrieved chunk and in the order of retrieval,
  the bracketed citation tag, a line feed and the text of the chunk, the entries
  separated by an empty line: whatever chunks come before and after a chunk, its entry
  stands between theirs.
\<close>

theorem buildContext_order:
  "buildContext (xs @ c # ys) =
     (if xs = [] then [] else buildContext xs @ js [CHR 0x0A, CHR 0x0A])
     @ js ''['' @ formatCitation (celex c) (chunk_id c) @ js '']'' @ js [CHR 0x0A] @ content c
     @ (if ys = [] then [] else js [CHR 0x0A, CHR 0x0A] @ buildContext ys)"
  by (simp add: buildContext_def join_append)

theorem buildContext_order_witness:
  "buildContext [demoChunk, demoChunk2] =
     js ''[#32016R0679:1]'' @ js [CHR 0x0A] @ js ''Lorem ipsum'' @ js [CHR 0x0A, CHR 0x0A]
     @ js ''[#32016R0679:2]'' @ js [CHR 0x0A] @ js ''Dolor sit amet''"
proof -
  have f1: "formatCitation (celex demoChunk) (chunk_id demoChunk) = js ''#32016R0679:1''"
    by (simp add: formatCitation_def demoChunk_def numberToString_def digitsOf.simps digitChar_def js_def)
  have f2: "formatCitation (celex demoChunk2) (chunk_id demoChunk2) = js ''#32016R0679:2''"
    by (simp add: formatCitation_def demoChunk2_def numberToString_def digitsOf.simps digitChar_def js_def)
  have c1: "content demoChunk = js ''Lorem ipsum''" by (simp add: demoChunk_def)
  have c2: "content demoChunk2 = js ''Dolor sit amet''" by (simp add: demoChunk2_def)
  have e: "buildContext [demoChunk2] = js ''['' @ formatCitation (celex demoChunk2) (chunk_id demoChunk2) @ js '']'' @ js [CHR 0x0A] @ content demoChunk2"
    using buildContext_order [of "[]" demoChunk2 "[]"] by simp
  from buildContext_order [of "[]" demoChunk "[demoChunk2]"] e
  show ?thesis by (simp add: f1 f2 c1 c2 js_def)
qed

text \<open>
  Claim C4. Given what the retrieval returns, \<open>answer\<close> gives the fixed text with no
  citation exactly when the list is empty or the score of its first chunk is below
  \<open>0.25\<close>; otherwise (a first chunk with score \<open>0.25\<close> or more) it asks the chat model, and
  when that answers, the result cites every retrieved chunk, in order, with its score.
\<close>

theorem abstention_gating:
  assumes "searchRows sv q 5 = Inr chunks"
  shows "(answer sv q = ([Retrieve q 5], Inr \<lparr>answer_text = abstainText, sources = [], sourceEntries = []\<rparr>)
            \<longleftrightarrow> chunks = [] \<or> score (hd chunks) < 0.25)
       \<and> (chunks \<noteq> [] \<and> 0.25 \<le> score (hd chunks) \<longrightarrow>
            fst (answer sv q) = [Retrieve q 5, Complete systemPrompt (userMessage q (buildContext chunks))]
            \<and> (\<forall>c. chatContent sv systemPrompt (userMessage q (buildContext chunks)) = Inr c \<longrightarrow>
                  snd (answer sv q) =
                    Inr \<lparr>answer_text = completionText c,
                         sources = map (\<lambda>c. formatCitation (celex c) (chunk_id c)) chunks,
                         sourceEntries = map (\<lambda>c. (formatCitation (celex c) (chunk_id c), score c)) chunks\<rparr>))"
  using assms
  by (cases chunks)
     (auto simp: answer_def retrieve_def belowThreshold_def Let_def comp_def split: sum.splits)

theorem abstention_gating_witness:
  "answer demoServices (js ''q'') =
     ([Retrieve (js ''q'') 5,
       Complete systemPrompt (userMessage (js ''q'') (buildContext [demoChunk, demoChunk2]))],
      Inr \<lparr>answer_text = js ''ok'',
           sources = [js ''#32016R0679:1'', js ''#32016R0679:2''],
           sourceEntries = [(js ''#32016R0679:1'', 0.25), (js ''#32016R0679:2'', 0.2)]\<rparr>)"
proof -
  have h: "searchRows demoServices (js ''q'') 5 = Inr [demoChunk, demoChunk2]"
    by (simp add: demoServices_def)
  have c: "chatContent demoServices systemPrompt
             (userMessage (js ''q'') (buildContext [demoChunk, demoChunk2])) = Inr (Some (js '' ok ''))"
    by (simp add: demoServices_def)
  have s: "score (hd [demoChunk, demoChunk2]) = 0.25" by (simp add: demoChunk_def)
  have t: "completionText (Some (js '' ok '')) = js ''ok''"
    by (simp add: completionText_def trim_def js_def isWhiteSpace_def)
  have f1: "formatCitation (celex demoChunk) (chunk_id demoChunk) = js ''#32016R0679:1''"
    by (simp add: formatCitation_def demoChunk_def numberToString_def digitsOf.simps digitChar_def js_def)
  have f2: "formatCitation (celex demoChunk2) (chunk_id demoChunk2) = js ''#32016R0679:2''"
    by (simp add: formatCitation_def demoChunk2_def numberToString_def digitsOf.simps digitChar_def js_def)
  have s1: "score demoChunk = 0.25" by (simp add: demoChunk_def)
  have s2: "score demoChunk2 = 0.2" by (simp add: demoChunk2_def)
  from abstention_gating [OF h] c s have
    "fst (answer demoServices (js ''q'')) = [Retrieve (js ''q'') 5,
       Complete systemPrompt (userMessage (js ''q'') (buildContext [demoChunk, demoChunk2]))]"
    and "snd (answer demoServices (js ''q'')) =
       Inr \<lparr>answer_text = completionText (Some (js '' ok '')),
         sources = map (\<lambda>c. formatCitation (celex c) (chunk_id c)) [demoChunk, demoChunk2],
         sourceEntries = map (\<lambda>c. (formatCitation (celex c) (chunk_id c), score c)) [demoChunk, demoChunk2]\<rparr>"
    by simp_all
  then show ?thesis by (simp add: prod_eq_iff t f1 f2 s1 s2)
qed

text \<open>The wrapper \<open>generateAnswer\<close> has the same gate, for the \<open>k\<close> it is given.\<close>

lemma generateAnswer_gating:
  assumes "searchRows sv q n = Inr chunks"
  shows "(generateAnswer sv q (Some n) = ([Retrieve q n], Inr \<lparr>answerText = abstainText, answerSources = []\<rparr>)
            \<longleftrightarrow> chunks = [] \<or> score (hd chunks) < 0.25)
       \<and> (chunks \<noteq> [] \<and> 0.25 \<le> score (hd chunks) \<longrightarrow>
            fst (generateAnswer sv q (Some n))
              = [Retrieve q n, Complete systemPrompt (userMessage q (buildContext chunks))])"
  using assms
  by (cases chunks)
     (auto simp: generateAnswer_def retrieve_def belowThreshold_def Let_def split: sum.splits)

text \<open>
  Claim C6, as the code has it. \<open>answer\<close> always asks for 5 chunks and \<open>retrieve\<close> called
  without \<open>k\<close> asks for 5; \<open>generateAnswer\<close> called without \<open>k\<close>, and the chat route on a
  body without \<open>k\<close>, ask for 10.
\<close>

theorem default_k:
  "requestedK (fst (answer sv q)) = [5]
   \<and> requestedK (fst (retrieve sv q None)) = [5]
   \<and> requestedK (fst (generateAnswer sv q None)) = [10]
   \<and> (parseBody b = Inr (m, None) \<longrightarrow> requestedK (fst (POST sv b)) = [10])"
  by (auto simp: answer_def retrieve_def generateAnswer_def POST_def requestedK_def Let_def
           split: sum.splits)

theorem default_k_witness:
  "requestedK (fst (POST demoServices \<lparr>message = JString (js ''q''), k_field = JUndefined\<rparr>)) = [10]"
proof -
  have "parseBody \<lparr>message = JString (js ''q''), k_field = JUndefined\<rparr> = Inr (js ''q'', None)"
    by (simp add: parseBody_def js_def)
  with default_k [of demoServices "js ''q''" "\<lparr>message = JString (js ''q''), k_field = JUndefined\<rparr>" "js ''q''"]
  show ?thesis by blast
qed

text \<open>
  Claim C6 as stated (without \<open>k\<close> the retrieval asks for exactly 5 chunks) fails for
  \<open>generateAnswer\<close> and for the chat route.
\<close>

theorem default_k_counterexample:
  "requestedK (fst (generateAnswer demoServices (js ''q'') None)) \<noteq> [5]
   \<and> requestedK (fst (POST demoServices \<lparr>message = JString (js ''q''), k_field = JUndefined\<rparr>)) \<noteq> [5]"
  by (simp add: generateAnswer_def retrieve_def POST_def parseBody_def requestedK_def Let_def
        demoServices_def js_def demoChunk_def demoChunk2_def belowThreshold_def split: sum.splits)

section \<open>Ingestion of one document\<close>

text \<open>
  Claim C7. When the markup fetched for a record matches one of the markers,
  \<open>processItem\<close> returns a report with no chunk and leaves the table as it was.
\<close>

theorem skip_no_longer_in_force:
  assumes "fetchHtml env item = Inr html" and "matched (isNoLongerInForce html)"
  shows "processItem env item noEmbed tbl =
           Some (Inr \<lparr>report_celex = item_celex item, chunkCount = 0, avgChunkLen = 0\<rparr>, tbl)"
  using assms by (simp add: processItem_def)

lemma demo_fetch: "fetchHtml demoEnv demoItem = Inr demoHtml"
  by code_simp

lemma demo_matched: "matched (isNoLongerInForce demoHtml)"
  by code_simp

theorem skip_no_longer_in_force_witness:
  "processItem demoEnv demoItem False demoTable =
     Some (Inr \<lparr>report_celex = js ''32019R1234'', chunkCount = 0, avgChunkLen = 0\<rparr>, demoTable)"
proof -
  have c: "item_celex demoItem = js ''32019R1234''" by (simp add: demoItem_def)
  from skip_no_longer_in_force [OF demo_fetch demo_matched, of False demoTable] c
  show ?thesis by simp
qed

text \<open>
  A first upsert of a document (no row of it in the table) stores the indices \<open>0\<close> to
  \<open>n - 1\<close>, in order.
\<close>

lemma insertRow_new:
  "\<forall>x\<in>set tbl. \<not> (row_celex x = row_celex r \<and> row_chunk_id x = row_chunk_id r)
     \<Longrightarrow> insertRow r tbl = tbl @ [r]"
  by (induction tbl) auto

lemma insertAll_fresh:
  "insertAll acc cx i cvs tbl = Inr tbl' \<Longrightarrow>
   \<forall>x\<in>set tbl. row_celex x = cx \<longrightarrow> row_chunk_id x < i \<Longrightarrow>
   map row_chunk_id (filter (\<lambda>x. row_celex x = cx) tbl')
     = map row_chunk_id (filter (\<lambda>x. row_celex x = cx) tbl) @ map (\<lambda>j. i + int j) [0..<length cvs]"
proof (induction cvs arbitrary: i tbl)
  case Nil
  then show ?case by simp
next
  case (Cons cv cvs)
  obtain c v where cv: "cv = (c, v)" by (cases cv)
  let ?r = "\<lparr>row_celex = cx, row_doc_id = cx, row_chunk_id = i, row_content = c, row_embedding = v\<rparr>"
  from Cons.prems(1) cv have run: "insertAll acc cx (i + 1) cvs (insertRow ?r tbl) = Inr tbl'"
    by (simp add: Let_def split: if_splits)
  have new: "insertRow ?r tbl = tbl @ [?r]"
    by (rule insertRow_new) (use Cons.prems(2) in auto)
  have "\<forall>x\<in>set (insertRow ?r tbl). row_celex x = cx \<longrightarrow> row_chunk_id x < i + 1"
    unfolding new using Cons.prems(2) by auto
  from Cons.IH [OF run this]
  have "map row_chunk_id (filter (\<lambda>x. row_celex x = cx) tbl')
     = map row_chunk_id (filter (\<lambda>x. row_celex x = cx) tbl) @ [i] @ map (\<lambda>j. i + 1 + int j) [0..<length cvs]"
    by (simp add: new)
  moreover have "map (\<lambda>j. i + int j) [0..<length (cv # cvs)] = [i] @ map (\<lambda>j. i + 1 + int j) [0..<length cvs]"
    by (simp add: upt_rec [of 0] map_Suc_upt [symmetric] del: upt_Suc)
  ultimately show ?case by simp
qed

lemma embedAll_length: "embedAll emb cs = Inr vs \<Longrightarrow> length vs = length cs"
  by (induction cs arbitrary: vs) (auto split: sum.splits)

lemma first_upsert_contiguous:
  assumes "upsertDocument env cx chunks tbl = (None, tbl')"
    and "\<forall>x\<in>set tbl. row_celex x \<noteq> cx"
  shows "map row_chunk_id (filter (\<lambda>x. row_celex x = cx) tbl') = map int [0..<length chunks]"
proof -
  from assms(1) obtain vs where e: "embedAll (embed env) chunks = Inr vs"
    and i: "insertAll (dbAccepts env) cx 0 (zip chunks vs) tbl = Inr tbl'"
    by (auto simp: upsertDocument_def split: sum.splits)
  from assms(2) have f: "filter (\<lambda>x. row_celex x = cx) tbl = []" by (simp add: filter_empty_conv)
  from insertAll_fresh [OF i] assms(2) embedAll_length [OF e] f
  show ?thesis by simp
qed

text \<open>
  Claim C5 asks that after a successful upsert of \<open>n\<close> chunks the rows of the document
  are the indices \<open>0\<close> to \<open>n - 1\<close>. On a document stored with three chunks, an upsert of
  one chunk succeeds and leaves the rows \<open>1\<close> and \<open>2\<close> with their old text.
\<close>

theorem upsert_leaves_stale_rows:
  "fst (upsertDocument demoEnv (js ''32019R1234'') [js ''new''] demoTable) = None
   \<and> map row_chunk_id (filter (\<lambda>r. row_celex r = js ''32019R1234'')
        (snd (upsertDocument demoEnv (js ''32019R1234'') [js ''new''] demoTable))) = [0, 1, 2]
   \<and> map row_content (filter (\<lambda>r. row_celex r = js ''32019R1234'')
        (snd (upsertDocument demoEnv (js ''32019R1234'') [js ''new''] demoTable))) = [js ''new'', js ''old'', js ''old'']"
  by (simp add: upsertDocument_def demoEnv_def demoTable_def js_def)


section \<open>The chunker\<close>

lemma ws_consts [simp]:
  "isWhiteSpace SPACE" "isWhiteSpace LF" "isWhiteSpace TAB" "isWhiteSpace CR" "isWhiteSpace FF"
  "isWhiteSpace NBSP"
  by (simp_all add: isWhiteSpace_def SPACE_def LF_def TAB_def CR_def FF_def NBSP_def)

lemma filter_dropWhile_sub:
  "(\<And>c. p c \<Longrightarrow> q c) \<Longrightarrow> filter (\<lambda>c. \<not> q c) (dropWhile p xs) = filter (\<lambda>c. \<not> q c) xs"
  by (induction xs) auto

lemma filter_takeWhile_sub:
  "(\<And>c. p c \<Longrightarrow> q c) \<Longrightarrow> filter (\<lambda>c. \<not> q c) (takeWhile p xs) = []"
  by (induction xs) auto

lemma nonws_dropWhile [simp]: "nonws (dropWhile isWhiteSpace xs) = nonws xs"
  by (rule filter_dropWhile_sub)

lemma nonws_trim [simp]: "nonws (trim s) = nonws s"
  by (simp add: trim_def flip: rev_filter)

lemma nonws_replaceRuns:
  "(\<And>c. p c \<Longrightarrow> isWhiteSpace c) \<Longrightarrow> nonws r = [] \<Longrightarrow> nonws (replaceRuns p r s) = nonws s"
  by (induction p r s rule: replaceRuns.induct) (auto simp: filter_dropWhile_sub)

lemma nonws_squeezeNewlines [simp]: "nonws (squeezeNewlines s) = nonws s"
proof (induction s rule: squeezeNewlines.induct)
  case 1
  show ?case by simp
next
  case (2 c cs)
  have t: "nonws (takeWhile (\<lambda>x. x = LF) cs) = []"
    by (rule filter_takeWhile_sub) simp
  have d: "nonws (dropWhile (\<lambda>x. x = LF) cs) = nonws cs"
    by (rule filter_dropWhile_sub) simp
  from 2 show ?case by (auto simp: Let_def t d)
qed

lemma nonws_map_nbsp [simp]: "nonws (map (\<lambda>c. if c = NBSP then SPACE else c) s) = nonws s"
  by (induction s) auto

lemma nonws_replaceRuns_blank [simp]:
  "nonws (replaceRuns (\<lambda>c. c = SPACE \<or> c = TAB) [SPACE] s) = nonws s"
  by (rule nonws_replaceRuns) auto

lemma nonws_replaceRuns_cr [simp]:
  "nonws (replaceRuns (\<lambda>c. c = CR \<or> c = FF) [LF] s) = nonws s"
  by (rule nonws_replaceRuns) auto

lemma nonws_replaceRuns_ws [simp]:
  "nonws (replaceRuns isWhiteSpace [SPACE] s) = nonws s"
  by (rule nonws_replaceRuns) auto

lemma nonws_cleanText [simp]: "nonws (cleanText s) = nonws s"
  by (simp add: cleanText_def)

lemma nonws_splitSentences: "nonws (concat (splitSentences acc s)) = nonws (acc @ s)"
  by (induction acc s rule: splitSentences.induct) auto

lemma nonws_sentenceSplit: "nonws (concat (sentenceSplit p)) = nonws p"
proof -
  let ?t = "trim (replaceRuns isWhiteSpace [SPACE] p)"
  have t: "nonws ?t = nonws p" by simp
  show ?thesis
  proof (cases "?t = []")
    case True
    with t show ?thesis by (simp add: sentenceSplit_def)
  next
    case False
    have "nonws (concat (splitSentences [] ?t)) = nonws p"
      using t by (simp add: nonws_splitSentences)
    with False t show ?thesis by (simp add: sentenceSplit_def Let_def)
  qed
qed

lemma trim_Nil_iff: "trim s = [] \<longleftrightarrow> nonws s = []"
proof
  assume "trim s = []"
  then have "nonws (trim s) = []" by simp
  then show "nonws s = []" by simp
next
  assume "nonws s = []"
  then have "\<forall>c\<in>set s. isWhiteSpace c" by (simp add: filter_empty_conv)
  then have "dropWhile isWhiteSpace s = []" by (metis dropWhile_eq_Nil_conv)
  then show "trim s = []" unfolding trim_def by (simp only: rev.simps dropWhile.simps)
qed

lemma cleanText_Nil_iff: "cleanText s = [] \<longleftrightarrow> nonws s = []"
proof
  assume "cleanText s = []"
  then have "nonws (cleanText s) = []" by simp
  then show "nonws s = []" by simp
next
  assume a: "nonws s = []"
  have "nonws (squeezeNewlines
       (replaceRuns (\<lambda>c. c = CR \<or> c = FF) [LF]
         (replaceRuns (\<lambda>c. c = SPACE \<or> c = TAB) [SPACE]
           (map (\<lambda>c. if c = NBSP then SPACE else c) s)))) = []"
    using a by simp
  then show "cleanText s = []" unfolding cleanText_def by (simp only: trim_Nil_iff)
qed


lemma content_flush:
  "nonws (concat (snd (flush st)) @ fst (flush st)) = nonws (concat (snd st) @ fst st)"
  by (auto simp: flush_def Let_def cleanText_Nil_iff)

lemma flush_no_empty: "[] \<notin> set (snd st) \<Longrightarrow> [] \<notin> set (snd (flush st))"
  by (auto simp: flush_def Let_def)

lemma content_addHeading:
  "nonws (concat (snd (addHeading h st)) @ fst (addHeading h st)) = nonws (concat (snd st) @ fst st) @ nonws h"
  using content_flush [of st] by (auto simp: addHeading_def Let_def)

lemma addHeading_no_empty: "[] \<notin> set (snd st) \<Longrightarrow> [] \<notin> set (snd (addHeading h st))"
  by (auto simp: addHeading_def Let_def flush_no_empty)

lemma content_addSlice:
  "nonws (concat (snd (addSlice mn mx sl st)) @ fst (addSlice mn mx sl st))
     = nonws (concat (snd st) @ fst st) @ nonws sl"
  using content_flush [of st] by (auto simp: addSlice_def Let_def)

lemma addSlice_no_empty: "[] \<notin> set (snd st) \<Longrightarrow> [] \<notin> set (snd (addSlice mn mx sl st))"
  by (auto simp: addSlice_def Let_def flush_no_empty)

lemma slice_drop:
  "start < length s \<Longrightarrow>
   take (min (start + mx) (length s) - start) (drop start s) @ drop (min (start + mx) (length s)) s
     = drop start s"
proof -
  assume "start < length s"
  let ?e = "min (start + mx) (length s)"
  have "start \<le> ?e" using \<open>start < length s\<close> by simp
  then have "drop ?e s = drop (?e - start) (drop start s)" by simp
  then show ?thesis by (simp only: append_take_drop_id)
qed

lemma hardSplit_invariant:
  assumes run: "hardSplit s mn mx start st = Some st'"
    and init: "I start st"
    and step: "\<And>start st. I start st \<Longrightarrow> start < length s \<Longrightarrow>
                 I (min (start + mx) (length s))
                   (addSlice mn mx (take (min (start + mx) (length s) - start) (drop start s)) st)"
  shows "\<exists>e\<ge>length s. I e st'"
proof -
  have "s0 = s \<longrightarrow> mn0 = mn \<longrightarrow> mx0 = mx \<longrightarrow> I start st \<longrightarrow> (\<exists>e\<ge>length s. I e st')"
    if "hardSplit s0 mn0 mx0 start st = Some st'" for s0 mn0 mx0
  proof (rule hardSplit.raw_induct
      [where P = "\<lambda>s0 mn0 mx0 start st st'.
         s0 = s \<longrightarrow> mn0 = mn \<longrightarrow> mx0 = mx \<longrightarrow> I start st \<longrightarrow> (\<exists>e\<ge>length s. I e st')", OF _ that])
    fix f s0 mn0 mx0 start st st'
    assume IH: "\<And>s0 mn0 mx0 start st st'. f s0 mn0 mx0 start st = Some st' \<Longrightarrow>
        s0 = s \<longrightarrow> mn0 = mn \<longrightarrow> mx0 = mx \<longrightarrow> I start st \<longrightarrow> (\<exists>e\<ge>length s. I e st')"
    assume eq: "(if start < length s0
      then let end = min (start + mx0) (length s0);
               slice = take (end - start) (drop start s0)
           in f s0 mn0 mx0 end (addSlice mn0 mx0 slice st)
      else Some st) = Some st'"
    show "s0 = s \<longrightarrow> mn0 = mn \<longrightarrow> mx0 = mx \<longrightarrow> I start st \<longrightarrow> (\<exists>e\<ge>length s. I e st')"
    proof (intro impI)
      assume a: "s0 = s" "mn0 = mn" "mx0 = mx" "I start st"
      show "\<exists>e\<ge>length s. I e st'"
      proof (cases "start < length s")
        case True
        let ?e = "min (start + mx) (length s)"
        let ?sl = "take (?e - start) (drop start s)"
        from True eq a have "f s mn mx ?e (addSlice mn mx ?sl st) = Some st'"
          by (simp add: Let_def)
        moreover have "I ?e (addSlice mn mx ?sl st)" using a(4) True by (rule step)
        ultimately show ?thesis using IH by blast
      next
        case False
        with eq a have "st' = st" by simp
        with a False show ?thesis by (intro exI [of _ start]) simp
      qed
    qed
  qed
  with run init show ?thesis by blast
qed

lemma hardSplit_terminates:
  assumes "0 < mx"
  shows "\<exists>st'. hardSplit s mn mx start st = Some st'"
proof (induction "length s - start" arbitrary: start st rule: less_induct)
  case less
  show ?case
  proof (cases "start < length s")
    case True
    let ?e = "min (start + mx) (length s)"
    let ?sl = "take (?e - start) (drop start s)"
    from True assms have "length s - ?e < length s - start" unfolding min_def by (auto; arith)
    from less [OF this] obtain st' where "hardSplit s mn mx ?e (addSlice mn mx ?sl st) = Some st'"
      by blast
    with True show ?thesis by (subst hardSplit.simps) (simp add: Let_def)
  next
    case False
    then show ?thesis by (subst hardSplit.simps) simp
  qed
qed

lemma hardSplit_content:
  assumes "hardSplit s mn mx start st = Some st'"
  shows "nonws (concat (snd st') @ fst st') = nonws (concat (snd st) @ fst st) @ nonws (drop start s)
     \<and> ([] \<notin> set (snd st) \<longrightarrow> [] \<notin> set (snd st'))"
proof -
  let ?c0 = "nonws (concat (snd st) @ fst st) @ nonws (drop start s)"
  let ?I = "\<lambda>e x. nonws (concat (snd x) @ fst x) @ nonws (drop e s) = ?c0
                \<and> ([] \<notin> set (snd st) \<longrightarrow> [] \<notin> set (snd x))"
  have "\<exists>e\<ge>length s. ?I e st'"
  proof (rule hardSplit_invariant [OF assms, where I = ?I])
    show "?I start st" by simp
  next
    fix b x
    assume i: "?I b x" and lt: "b < length s"
    let ?e = "min (b + mx) (length s)"
    let ?sl = "take (?e - b) (drop b s)"
    have "nonws (?sl @ drop ?e s) = nonws (drop b s)"
      using slice_drop [OF lt, of mx] by simp
    then have "nonws ?sl @ nonws (drop ?e s) = nonws (drop b s)" by simp
    with i show "?I ?e (addSlice mn mx ?sl x)"
      by (simp only: content_addSlice append_assoc) (auto dest: addSlice_no_empty)
  qed
  then show ?thesis by auto
qed

lemma addSentence_cases:
  assumes "addSentence mn mx s st = Some st'"
  obtains (fits) "length (if length (fst st) > 0 then fst st @ [SPACE] @ s else s) \<le> mx"
      "st' = (if length (fst st) > 0 then fst st @ [SPACE] @ s else s, snd st)"
  | (full) "\<not> length (if length (fst st) > 0 then fst st @ [SPACE] @ s else s) \<le> mx"
      "mn \<le> length (fst st)" "st' = (s, snd (flush st))"
  | (long) "\<not> length (if length (fst st) > 0 then fst st @ [SPACE] @ s else s) \<le> mx"
      "\<not> mn \<le> length (fst st)" "mx \<le> length s" "hardSplit s mn mx 0 st = Some st'"
  | (short) "\<not> length (if length (fst st) > 0 then fst st @ [SPACE] @ s else s) \<le> mx"
      "\<not> mn \<le> length (fst st)" "\<not> mx \<le> length s"
      "st' = (s, snd (if fst st \<noteq> [] then flush st else st))"
proof -
  let ?t = "if length (fst st) > 0 then fst st @ [SPACE] @ s else s"
  from assms have eq:
    "(if length ?t \<le> mx then Some (?t, snd st)
      else if mn \<le> length (fst st) then Some (s, snd (flush st))
      else if mx \<le> length s then hardSplit s mn mx 0 st
      else Some (s, snd (if fst st \<noteq> [] then flush st else st))) = Some st'"
    unfolding addSentence_def Let_def by simp
  show thesis
  proof (cases "length ?t \<le> mx")
    case True
    with eq have "st' = (?t, snd st)" by (simp only: if_True option.inject)
    with True show thesis by (rule fits)
  next
    case f1: False
    show thesis
    proof (cases "mn \<le> length (fst st)")
      case True
      with eq f1 have "st' = (s, snd (flush st))" by (simp only: if_True if_False option.inject)
      with f1 True show thesis by (rule full)
    next
      case f2: False
      show thesis
      proof (cases "mx \<le> length s")
        case True
        with eq f1 f2 have "hardSplit s mn mx 0 st = Some st'" by (simp only: if_True if_False)
        with f1 f2 True show thesis by (rule long)
      next
        case False
        with eq f1 f2 have "st' = (s, snd (if fst st \<noteq> [] then flush st else st))"
          by (simp only: if_True if_False option.inject)
        with f1 f2 False show thesis by (rule short)
      qed
    qed
  qed
qed

lemma flush_chunks_content:
  "nonws (concat (snd (flush st))) = nonws (concat (snd st) @ fst st)"
  using content_flush [of st] by (simp add: flush_def Let_def)

lemma addSentence_content:
  assumes "addSentence mn mx s st = Some st'"
  shows "nonws (concat (snd st') @ fst st') = nonws (concat (snd st) @ fst st) @ nonws s
     \<and> ([] \<notin> set (snd st) \<longrightarrow> [] \<notin> set (snd st'))"
  using assms
proof (cases rule: addSentence_cases)
  case fits
  then show ?thesis by simp
next
  case full
  then show ?thesis using flush_chunks_content [of st] flush_no_empty [of st] by simp
next
  case long
  from hardSplit_content [OF long(4)] show ?thesis by simp
next
  case short
  then show ?thesis using flush_chunks_content [of st] flush_no_empty [of st] by (cases "fst st = []") simp_all
qed

lemma addSentences_content:
  "addSentences mn mx ss st = Some st' \<Longrightarrow>
     nonws (concat (snd st') @ fst st') = nonws (concat (snd st) @ fst st) @ nonws (concat ss)
     \<and> ([] \<notin> set (snd st) \<longrightarrow> [] \<notin> set (snd st'))"
proof (induction ss arbitrary: st)
  case Nil
  then show ?case by simp
next
  case (Cons s ss)
  from Cons.prems obtain st1 where s1: "addSentence mn mx s st = Some st1"
    and s2: "addSentences mn mx ss st1 = Some st'"
    by (auto split: option.splits)
  from addSentence_content [OF s1] Cons.IH [OF s2] show ?case by simp
qed

lemma addToken_content:
  assumes "addToken mn mx t st = Some st'"
  shows "nonws (concat (snd st') @ fst st') = nonws (concat (snd st) @ fst st) @ nonws (tokenText t)
     \<and> ([] \<notin> set (snd st) \<longrightarrow> [] \<notin> set (snd st'))"
proof (cases t)
  case (Heading h)
  with assms have "st' = addHeading h st" by (simp add: addToken_def)
  with Heading show ?thesis using content_addHeading [of h st] addHeading_no_empty [of st h] by simp
next
  case (TextToken b)
  with assms have "addSentences mn mx (sentenceSplit b) st = Some st'" by (simp add: addToken_def)
  from addSentences_content [OF this] TextToken show ?thesis by (simp add: nonws_sentenceSplit)
qed

lemma addTokens_content:
  "addTokens mn mx ts st = Some st' \<Longrightarrow>
     nonws (concat (snd st') @ fst st') = nonws (concat (snd st) @ fst st) @ nonws (concat (map tokenText ts))
     \<and> ([] \<notin> set (snd st) \<longrightarrow> [] \<notin> set (snd st'))"
proof (induction ts arbitrary: st)
  case Nil
  then show ?case by simp
next
  case (Cons t ts)
  from Cons.prems obtain st1 where s1: "addToken mn mx t st = Some st1"
    and s2: "addTokens mn mx ts st1 = Some st'"
    by (auto split: option.splits)
  from addToken_content [OF s1] Cons.IH [OF s2] show ?case by simp
qed

lemma buildChunks_content:
  assumes "buildChunks tokens mn mx = Some chunks"
  shows "nonws (concat chunks) = nonws (concat (map tokenText tokens)) \<and> [] \<notin> set chunks"
proof -
  from assms obtain st where st: "addTokens mn mx tokens ([], []) = Some st"
    and ch: "chunks = snd (if trim (fst st) \<noteq> [] then flush st else st)"
    by (auto simp: buildChunks_def split: option.splits)
  from addTokens_content [OF st]
  have c: "nonws (concat (snd st) @ fst st) = nonws (concat (map tokenText tokens))"
    and e: "[] \<notin> set (snd st)" by simp_all
  show ?thesis
  proof (cases "trim (fst st) \<noteq> []")
    case True
    with ch have "chunks = snd (flush st)" by simp
    moreover have "nonws (concat (snd (flush st))) = nonws (concat (snd st) @ fst st)"
      using content_flush [of st] by (simp add: flush_def Let_def)
    ultimately show ?thesis using c e flush_no_empty [of st] by simp
  next
    case False
    then have "nonws (fst st) = []" by (simp add: trim_Nil_iff)
    with False ch c e show ?thesis by simp
  qed
qed

lemma addSentence_returns:
  assumes "0 < mx" shows "\<exists>st'. addSentence mn mx s st = Some st'"
  using hardSplit_terminates [OF assms, of s mn 0 st] by (auto simp: addSentence_def Let_def)

lemma addSentences_returns:
  assumes "0 < mx" shows "\<exists>st'. addSentences mn mx ss st = Some st'"
proof (induction ss arbitrary: st)
  case Nil
  show ?case by simp
next
  case (Cons s ss)
  from addSentence_returns [OF assms, of mn s st] obtain st1 where "addSentence mn mx s st = Some st1" ..
  with Cons [of st1] show ?case by simp
qed

lemma addTokens_returns:
  assumes "0 < mx" shows "\<exists>st'. addTokens mn mx ts st = Some st'"
proof (induction ts arbitrary: st)
  case Nil
  show ?case by simp
next
  case (Cons t ts)
  have "\<exists>st1. addToken mn mx t st = Some st1"
    using addSentences_returns [OF assms] by (cases t) (simp_all add: addToken_def)
  then obtain st1 where "addToken mn mx t st = Some st1" ..
  with Cons [of st1] show ?case by simp
qed

lemma buildChunks_returns:
  assumes "0 < mx" shows "\<exists>chunks. buildChunks tokens mn mx = Some chunks"
proof -
  from addTokens_returns [OF assms, of mn tokens "([], [])"]
  obtain st where "addTokens mn mx tokens ([], []) = Some st" ..
  then show ?thesis by (simp add: buildChunks_def)
qed


lemma length_trim_le: "length (trim s) \<le> length s"
proof -
  have "length (trim s) \<le> length (dropWhile isWhiteSpace s)"
    unfolding trim_def using length_dropWhile_le [of isWhiteSpace "rev (dropWhile isWhiteSpace s)"] by simp
  also have "\<dots> \<le> length s" by (rule length_dropWhile_le)
  finally show ?thesis .
qed

lemma length_replaceRuns_le: "length r \<le> 1 \<Longrightarrow> length (replaceRuns p r s) \<le> length s"
proof (induction p r s rule: replaceRuns.induct)
  case (1 p r)
  show ?case by simp
next
  case (2 p r c cs)
  show ?case
  proof (cases "p c")
    case True
    with 2 have "length (replaceRuns p r (dropWhile p cs)) \<le> length (dropWhile p cs)" by simp
    also have "\<dots> \<le> length cs" by (rule length_dropWhile_le)
    finally show ?thesis using True "2.prems" by simp
  next
    case False
    with 2 show ?thesis by simp
  qed
qed

lemma length_squeezeNewlines_le: "length (squeezeNewlines s) \<le> length s"
proof (induction s rule: squeezeNewlines.induct)
  case 1
  show ?case by simp
next
  case (2 c cs)
  show ?case
  proof (cases "c = LF")
    case True
    let ?run = "takeWhile (\<lambda>x. x = LF) cs"
    let ?rest = "dropWhile (\<lambda>x. x = LF) cs"
    from True 2 have ih: "length (squeezeNewlines ?rest) \<le> length ?rest" by simp
    have "length ?run + length ?rest = length cs"
      by (metis length_append takeWhile_dropWhile_id)
    with ih True show ?thesis by (auto simp: Let_def)
  next
    case False
    with 2 show ?thesis by simp
  qed
qed

lemma length_cleanText_le: "length (cleanText s) \<le> length s"
proof -
  let ?a = "map (\<lambda>c. if c = NBSP then SPACE else c) s"
  let ?b = "replaceRuns (\<lambda>c. c = SPACE \<or> c = TAB) [SPACE] ?a"
  let ?c = "replaceRuns (\<lambda>c. c = CR \<or> c = FF) [LF] ?b"
  have "length (cleanText s) \<le> length (squeezeNewlines ?c)"
    unfolding cleanText_def by (rule length_trim_le)
  also have "\<dots> \<le> length ?c" by (rule length_squeezeNewlines_le)
  also have "\<dots> \<le> length ?b" by (rule length_replaceRuns_le) simp
  also have "\<dots> \<le> length ?a" by (rule length_replaceRuns_le) simp
  finally show ?thesis by simp
qed

lemma sentenceEnd_not_ws: "isSentenceEnd c \<Longrightarrow> \<not> isWhiteSpace c"
  unfolding isSentenceEnd_def by (elim disjE) (simp_all add: isWhiteSpace_def)

lemma capital_not_ws:
  assumes a: "(0x41::16 word) \<le> c" and b: "c \<le> 0x5A"
  shows "\<not> isWhiteSpace c"
proof
  assume w: "isWhiteSpace c"
  have r: "\<not> (0x2000 \<le> c)"
  proof
    assume "0x2000 \<le> c"
    with b have "(0x2000::16 word) \<le> 0x5A" by (rule order_trans [rotated])
    then show False by simp
  qed
  from w [unfolded isWhiteSpace_def] r a b show False
    by (elim disjE conjE) simp_all
qed

lemma sentenceStart_not_ws: "isSentenceStart c \<Longrightarrow> \<not> isWhiteSpace c"
  unfolding isSentenceStart_def
  by (elim disjE conjE) (simp_all add: capital_not_ws, simp_all add: isWhiteSpace_def)

lemma last_dropWhile: "dropWhile P xs \<noteq> [] \<Longrightarrow> last (dropWhile P xs) = last xs"
  by (induction xs) (auto split: if_splits)

lemma trim_hd_last:
  assumes "trim s \<noteq> []"
  shows "\<not> isWhiteSpace (hd (trim s))" and "\<not> isWhiteSpace (last (trim s))"
proof -
  let ?d = "dropWhile isWhiteSpace s"
  let ?x = "dropWhile isWhiteSpace (rev ?d)"
  from assms have x: "?x \<noteq> []" by (simp add: trim_def)
  then have d: "?d \<noteq> []" by (metis dropWhile.simps(1) rev.simps(1))
  have "hd (trim s) = last ?x" using x by (simp add: trim_def hd_rev)
  also have "\<dots> = last (rev ?d)" using x by (rule last_dropWhile)
  also have "\<dots> = hd ?d" using d by (simp add: last_rev)
  finally have "hd (trim s) = hd ?d" .
  moreover have "\<not> isWhiteSpace (hd ?d)" using d by (rule hd_dropWhile)
  ultimately show "\<not> isWhiteSpace (hd (trim s))" by simp
  have "last (trim s) = hd ?x" using x by (simp add: trim_def last_rev)
  moreover have "\<not> isWhiteSpace (hd ?x)" using x by (rule hd_dropWhile)
  ultimately show "\<not> isWhiteSpace (last (trim s))" by simp
qed

lemma nonws_has: "c \<in> set s \<Longrightarrow> \<not> isWhiteSpace c \<Longrightarrow> nonws s \<noteq> []"
  by (auto simp: filter_empty_conv)

lemma splitSentences_nonws:
  "nonws acc \<noteq> [] \<or> (s \<noteq> [] \<and> \<not> isWhiteSpace (hd s)) \<Longrightarrow> p \<in> set (splitSentences acc s)
     \<Longrightarrow> nonws p \<noteq> []"
proof (induction acc s rule: splitSentences.induct)
  case (1 acc)
  then show ?case by simp
next
  case (2 acc c cs)
  let ?cut = "isWhiteSpace c \<and> acc \<noteq> [] \<and> isSentenceEnd (last acc)
         \<and> (case dropWhile isWhiteSpace cs of [] \<Rightarrow> False | u # _ \<Rightarrow> isSentenceStart u)"
  show ?case
  proof (cases ?cut)
    case True
    then have acc: "nonws acc \<noteq> []"
      using nonws_has [of "last acc" acc] sentenceEnd_not_ws [of "last acc"] by simp
    from True obtain u us where u: "dropWhile isWhiteSpace cs = u # us" "isSentenceStart u"
      by (auto split: list.splits)
    then have nxt: "dropWhile isWhiteSpace cs \<noteq> [] \<and> \<not> isWhiteSpace (hd (dropWhile isWhiteSpace cs))"
      using sentenceStart_not_ws by simp
    from "2.prems"(2) have "p \<in> set (if ?cut then acc # splitSentences [] (dropWhile isWhiteSpace cs)
        else splitSentences (acc @ [c]) cs)" by (simp only: splitSentences.simps)
    with True have "p \<in> set (acc # splitSentences [] (dropWhile isWhiteSpace cs))"
      by (simp only: if_True simp_thms)
    then have "p = acc \<or> p \<in> set (splitSentences [] (dropWhile isWhiteSpace cs))"
      by simp
    then show ?thesis
    proof
      assume "p = acc" with acc show ?thesis by simp
    next
      assume "p \<in> set (splitSentences [] (dropWhile isWhiteSpace cs))"
      with "2.IH"(1) [OF True] nxt show ?thesis by blast
    qed
  next
    case False
    from "2.prems"(1) have "nonws (acc @ [c]) \<noteq> []" by auto
    moreover from "2.prems"(2) have "p \<in> set (if ?cut then acc # splitSentences [] (dropWhile isWhiteSpace cs)
        else splitSentences (acc @ [c]) cs)" by (simp only: splitSentences.simps)
    with False have "p \<in> set (splitSentences (acc @ [c]) cs)" by (simp only: if_False)
    ultimately show ?thesis using "2.IH"(2) [OF False] by blast
  qed
qed

lemma sentenceSplit_nonws:
  assumes "p \<in> set (sentenceSplit b)" shows "nonws p \<noteq> []"
proof -
  let ?t = "trim (replaceRuns isWhiteSpace [SPACE] b)"
  from assms have t: "?t \<noteq> []" by (auto simp: sentenceSplit_def Let_def split: if_splits)
  then have "nonws (replaceRuns isWhiteSpace [SPACE] b) \<noteq> []" using trim_Nil_iff by blast
  then have nt: "nonws ?t \<noteq> []" using nonws_trim [of "replaceRuns isWhiteSpace [SPACE] b"] by metis
  from assms t have "p = ?t \<or> p \<in> set (splitSentences [] ?t)"
    by (auto simp: sentenceSplit_def Let_def split: if_splits)
  then show ?thesis
  proof
    assume "p = ?t" with nt show ?thesis by simp
  next
    assume "p \<in> set (splitSentences [] ?t)"
    moreover have "?t \<noteq> [] \<and> \<not> isWhiteSpace (hd ?t)" using t trim_hd_last(1) by blast
    ultimately show ?thesis using splitSentences_nonws by blast
  qed
qed


lemma within_flush: "bounded_state mx st \<Longrightarrow> bounded_state mx (flush st)"
  using length_cleanText_le [of "fst st"] by (auto simp: bounded_state_def flush_def Let_def)

lemma within_addHeading:
  assumes "bounded_state mx st" "length h < mx" "nonws h \<noteq> []"
  shows "bounded_state mx (addHeading h st)"
proof (cases "trim (fst st) = []")
  case True
  then have "nonws (fst st) = []" by (simp only: trim_Nil_iff)
  with assms(1) have "fst st = []" by (auto simp: bounded_state_def)
  with assms show ?thesis by (auto simp: addHeading_def bounded_state_def Let_def trim_def)
next
  case False
  have "fst (flush st) = []" by (simp add: flush_def Let_def)
  with False assms within_flush [OF assms(1)] show ?thesis
    by (auto simp: addHeading_def bounded_state_def Let_def)
qed

lemma within_addSentence:
  assumes "bounded_state mx st" "length s < mx" "nonws s \<noteq> []"
  shows "\<exists>st'. addSentence mn mx s st = Some st' \<and> bounded_state mx st'"
proof -
  let ?t = "if length (fst st) > 0 then fst st @ [SPACE] @ s else s"
  have nt: "nonws ?t \<noteq> []" using assms(3) by auto
  have fl: "bounded_state mx (s, snd (flush st))"
    using within_flush [OF assms(1)] assms(2,3) by (auto simp: bounded_state_def)
  have keep: "bounded_state mx (s, snd st)"
    using assms by (auto simp: bounded_state_def)
  show ?thesis
  proof (cases "length ?t \<le> mx")
    case True
    then have "addSentence mn mx s st = Some (?t, snd st)" by (simp add: addSentence_def Let_def)
    moreover have "bounded_state mx (?t, snd st)" using True nt assms(1) by (auto simp: bounded_state_def)
    ultimately show ?thesis by blast
  next
    case False
    with assms(2) have "addSentence mn mx s st = Some (s, snd (flush st))
        \<or> addSentence mn mx s st = Some (s, snd st)"
      by (auto simp: addSentence_def Let_def)
    with fl keep show ?thesis by auto
  qed
qed

lemma within_addSentences:
  "bounded_state mx st \<Longrightarrow> \<forall>s\<in>set ss. length s < mx \<and> nonws s \<noteq> [] \<Longrightarrow>
     \<exists>st'. addSentences mn mx ss st = Some st' \<and> bounded_state mx st'"
proof (induction ss arbitrary: st)
  case Nil
  then show ?case by simp
next
  case (Cons s ss)
  from Cons.prems have "length s < mx" "nonws s \<noteq> []" by simp_all
  from within_addSentence [OF Cons.prems(1) this, of mn]
  obtain st1 where s1: "addSentence mn mx s st = Some st1" "bounded_state mx st1" by blast
  from Cons.prems(2) have "\<forall>s\<in>set ss. length s < mx \<and> nonws s \<noteq> []" by simp
  from Cons.IH [OF s1(2) this] s1(1) show ?case by simp
qed

lemma within_addToken:
  assumes "bounded_state mx st" "boundedToken mx t"
  shows "\<exists>st'. addToken mn mx t st = Some st' \<and> bounded_state mx st'"
proof (cases t)
  case (Heading h)
  with assms(2) have "length h < mx" "nonws h \<noteq> []"
    by (auto simp: boundedToken_def filter_empty_conv)
  from within_addHeading [OF assms(1) this] Heading show ?thesis by (simp add: addToken_def)
next
  case (TextToken b)
  with assms(2) have "\<forall>s\<in>set (sentenceSplit b). length s < mx \<and> nonws s \<noteq> []"
    using sentenceSplit_nonws by (auto simp: boundedToken_def)
  from within_addSentences [OF assms(1) this] TextToken show ?thesis by (simp add: addToken_def)
qed

lemma within_addTokens:
  "bounded_state mx st \<Longrightarrow> \<forall>t\<in>set ts. boundedToken mx t \<Longrightarrow>
     \<exists>st'. addTokens mn mx ts st = Some st' \<and> bounded_state mx st'"
proof (induction ts arbitrary: st)
  case Nil
  then show ?case by simp
next
  case (Cons t ts)
  from Cons.prems have "boundedToken mx t" by simp
  from within_addToken [OF Cons.prems(1) this, of mn]
  obtain st1 where s1: "addToken mn mx t st = Some st1" "bounded_state mx st1" by blast
  from Cons.prems(2) have "\<forall>t\<in>set ts. boundedToken mx t" by simp
  from Cons.IH [OF s1(2) this] s1(1) show ?case by simp
qed

lemma bounded_tokens_bounded_chunks:
  assumes "\<forall>t\<in>set tokens. boundedToken maxSize t"
  shows "\<exists>chunks. buildChunks tokens minSize maxSize = Some chunks
           \<and> (\<forall>c\<in>set chunks. length c \<le> maxSize)"
proof -
  have "bounded_state maxSize ([], [])" by (simp add: bounded_state_def)
  from within_addTokens [OF this assms, of minSize]
  obtain st where st: "addTokens minSize maxSize tokens ([], []) = Some st" "bounded_state maxSize st"
    by blast
  let ?f = "if trim (fst st) \<noteq> [] then flush st else st"
  have "bounded_state maxSize ?f" using st(2) within_flush by simp
  then have "\<forall>c\<in>set (snd ?f). length c \<le> maxSize" by (simp add: bounded_state_def)
  moreover from st(1) have "buildChunks tokens minSize maxSize = Some (snd ?f)"
    by (simp add: buildChunks_def)
  ultimately show ?thesis by blast
qed

lemma dropWhile_append_stop: "\<not> p x \<Longrightarrow> dropWhile p (cs @ x # ys) = dropWhile p cs @ x # ys"
  by (induction cs) auto

lemma takeWhile_append_stop: "\<not> p x \<Longrightarrow> takeWhile p (cs @ x # ys) = takeWhile p cs"
  by (induction cs) auto

lemma replaceRuns_stop:
  "\<not> p x \<Longrightarrow> replaceRuns p r (xs @ x # ys) = replaceRuns p r xs @ x # replaceRuns p r ys"
proof (induction p r xs rule: replaceRuns.induct)
  case (1 p r)
  then show ?case by simp
next
  case (2 p r c cs)
  show ?case
  proof (cases "p c")
    case True
    with 2 have "replaceRuns p r (dropWhile p cs @ x # ys)
        = replaceRuns p r (dropWhile p cs) @ x # replaceRuns p r ys" by simp
    with True "2.prems" show ?thesis by (simp add: dropWhile_append_stop)
  next
    case False
    with 2 show ?thesis by simp
  qed
qed

lemma squeezeNewlines_stop:
  "x \<noteq> LF \<Longrightarrow> squeezeNewlines (xs @ x # ys) = squeezeNewlines xs @ x # squeezeNewlines ys"
proof (induction xs rule: squeezeNewlines.induct)
  case 1
  then show ?case by simp
next
  case (2 c cs)
  show ?case
  proof (cases "c = LF")
    case True
    from "2.prems" have d: "dropWhile (\<lambda>v. v = LF) (cs @ x # ys) = dropWhile (\<lambda>v. v = LF) cs @ x # ys"
      by (intro dropWhile_append_stop) simp
    from "2.prems" have t: "takeWhile (\<lambda>v. v = LF) (cs @ x # ys) = takeWhile (\<lambda>v. v = LF) cs"
      by (intro takeWhile_append_stop) simp
    from True 2 have "squeezeNewlines (dropWhile (\<lambda>v. v = LF) cs @ x # ys)
        = squeezeNewlines (dropWhile (\<lambda>v. v = LF) cs) @ x # squeezeNewlines ys" by simp
    with True show ?thesis
      by (simp add: d t Let_def)
  next
    case False
    with 2 show ?thesis by simp
  qed
qed

lemma splitsAtText_core: "splitsAtText core"
proof -
  have ws: "\<not> isWhiteSpace x \<Longrightarrow> x \<noteq> NBSP \<and> x \<noteq> SPACE \<and> x \<noteq> TAB \<and> x \<noteq> CR \<and> x \<noteq> FF \<and> x \<noteq> LF" for x
    by auto
  have "core (xs @ x # ys) = core xs @ x # core ys" if "\<not> isWhiteSpace x" for xs x ys
    using ws [OF that] by (simp add: core_def replaceRuns_stop squeezeNewlines_stop)
  moreover have "core [] = []" by (simp add: core_def)
  ultimately show ?thesis by (simp add: splitsAtText_def)
qed

lemma cleanText_core: "cleanText s = trim (core s)"
  by (simp add: cleanText_def core_def)

lemma nonws_core: "nonws (core s) = nonws s"
  by (simp add: core_def)

lemma core_around:
  assumes "h \<noteq> []" "\<not> isWhiteSpace (hd h)" "\<not> isWhiteSpace (last h)"
  shows "core (w @ h @ r) = core w @ core h @ core r"
    and "core h \<noteq> []" and "hd (core h) = hd h" and "last (core h) = last h"
proof -
  from splitsAtText_core have c0: "core [] = []"
    and cs: "\<And>xs x ys. \<not> isWhiteSpace x \<Longrightarrow> core (xs @ x # ys) = core xs @ x # core ys"
    by (auto simp: splitsAtText_def)
  from assms(1) obtain a t where at: "h = a # t" by (cases h) auto
  from assms(1) obtain b l where bl: "h = b @ [l]" by (cases h rule: rev_cases) auto
  from at assms(2) have a: "\<not> isWhiteSpace a" by simp
  from bl assms(3) have l: "\<not> isWhiteSpace l" by simp
  have h1: "core h = a # core t" using cs [OF a, of "[]" t] c0 at by simp
  have h2: "core h = core b @ [l]" using cs [OF l, of b "[]"] c0 bl by simp
  show "core h \<noteq> []" using h1 by simp
  show "hd (core h) = hd h" using h1 at by simp
  show "last (core h) = last h" using h2 bl by simp
  have "core (w @ h @ r) = core ((w @ b) @ l # r)" using bl by simp
  also have "\<dots> = core (w @ b) @ l # core r" by (rule cs [OF l])
  also have "core (w @ b) @ [l] = core (w @ h)" using cs [OF l, of "w @ b" "[]"] c0 bl by simp
  then have "core (w @ b) @ l # core r = core (w @ h) @ core r" by (metis append.assoc append_Cons append_Nil)
  also have "core (w @ h) = core w @ core h" using cs [OF a, of w t] at h1 by simp
  finally show "core (w @ h @ r) = core w @ core h @ core r" by simp
qed

lemma trim_around:
  assumes "nonws w = []" "h \<noteq> []" "\<not> isWhiteSpace (hd h)" "\<not> isWhiteSpace (last h)"
  shows "trim (w @ h @ r) = h @ rev (dropWhile isWhiteSpace (rev r))"
proof -
  from assms(1) have w: "\<And>x. x \<in> set w \<Longrightarrow> isWhiteSpace x" by (auto simp: filter_empty_conv)
  from assms(2,3) have dh: "dropWhile isWhiteSpace (h @ r) = h @ r" by (cases h) auto
  have d1: "dropWhile isWhiteSpace (w @ h @ r) = h @ r"
    using dropWhile_append2 [of w isWhiteSpace "h @ r"] w dh by simp
  from assms(2,4) have drh: "dropWhile isWhiteSpace (rev h) = rev h"
    by (cases h rule: rev_cases) auto
  have d2: "dropWhile isWhiteSpace (rev r @ rev h) = dropWhile isWhiteSpace (rev r) @ rev h"
  proof (cases "\<forall>x\<in>set (rev r). isWhiteSpace x")
    case True
    then have "dropWhile isWhiteSpace (rev r) = []" by (simp add: dropWhile_eq_Nil_conv)
    moreover from True have "dropWhile isWhiteSpace (rev r @ rev h) = dropWhile isWhiteSpace (rev h)"
      by (intro dropWhile_append2) auto
    ultimately show ?thesis using drh by simp
  next
    case False
    then obtain x where "x \<in> set (rev r)" "\<not> isWhiteSpace x" by blast
    then show ?thesis by (rule dropWhile_append1)
  qed
  show ?thesis unfolding trim_def d1 by (simp add: d2)
qed

lemma trim_id:
  assumes "h \<noteq> []" "\<not> isWhiteSpace (hd h)" "\<not> isWhiteSpace (last h)"
  shows "trim h = h"
  using trim_around [of "[]" h "[]"] assms by simp

lemma clean_heading_prefix:
  assumes "cleanText h = h" "h \<noteq> []" "nonws w = []"
  shows "prefix h (cleanText (w @ h @ r))"
proof -
  from assms(1,2) have t: "trim (core h) \<noteq> []" by (simp add: cleanText_core)
  from trim_hd_last [OF t] assms(1) have hl: "\<not> isWhiteSpace (hd h)" "\<not> isWhiteSpace (last h)"
    by (simp_all add: cleanText_core)
  note ca = core_around [OF assms(2) hl]
  have "trim (core h) = core h" using ca(2,3,4) hl by (intro trim_id) simp_all
  with assms(1) have ch: "core h = h" by (simp add: cleanText_core)
  have "nonws (core w) = []" using assms(3) by (simp add: nonws_core)
  from trim_around [OF this assms(2) hl, of "core r"]
  have "cleanText (w @ h @ r) = h @ rev (dropWhile isWhiteSpace (rev (core r)))"
    by (simp add: cleanText_core ca(1) ch)
  then show ?thesis by simp
qed

lemma closedBy_snoc: "closedBy c0 ch0 chunks \<Longrightarrow> closedBy c0 ch0 (chunks @ extra)"
proof -
  assume "closedBy c0 ch0 chunks"
  then obtain new ext where n: "chunks = ch0 @ new" "new \<noteq> []" "hd new = cleanText (c0 @ ext)"
    by (auto simp: closedBy_def)
  then have "chunks @ extra = ch0 @ (new @ extra)" "new @ extra \<noteq> []"
    "hd (new @ extra) = cleanText (c0 @ ext)" by simp_all
  then show ?thesis unfolding closedBy_def by blast
qed

lemma nonws_prefix: "prefix c0 cur \<Longrightarrow> nonws c0 \<noteq> [] \<Longrightarrow> nonws cur \<noteq> []"
  by (auto simp: prefix_def)

lemma closedBy_flush:
  assumes "nonws c0 \<noteq> []" "openedBy c0 ch0 st"
  shows "closedBy c0 ch0 (snd (flush st))"
proof -
  from assms(2) consider (a) "snd st = ch0" "prefix c0 (fst st)" | (b) "closedBy c0 ch0 (snd st)"
    by (auto simp: openedBy_def)
  then show ?thesis
  proof cases
    case a
    from a(2) obtain ext where e: "fst st = c0 @ ext" by (auto simp: prefix_def)
    from nonws_prefix [OF a(2) assms(1)] have "cleanText (fst st) \<noteq> []"
      by (simp only: cleanText_Nil_iff simp_thms)
    then have "snd (flush st) = ch0 @ [cleanText (c0 @ ext)]"
      using a(1) e by (simp add: flush_def Let_def)
    then show ?thesis unfolding closedBy_def by (intro exI [of _ "[cleanText (c0 @ ext)]"]) auto
  next
    case b
    have "snd (flush st) = snd st \<or> snd (flush st) = snd st @ [cleanText (fst st)]"
      by (simp add: flush_def Let_def)
    with b closedBy_snoc show ?thesis by auto
  qed
qed

lemma openedBy_closed: "closedBy c0 ch0 chunks \<Longrightarrow> openedBy c0 ch0 (cur, chunks)"
  by (simp add: openedBy_def)

lemma openedBy_append:
  "openedBy c0 ch0 st \<Longrightarrow> openedBy c0 ch0 (fst st @ x, snd st)"
  by (auto simp: openedBy_def)

lemma closedBy_empty:
  "nonws c0 \<noteq> [] \<Longrightarrow> openedBy c0 ch0 st \<Longrightarrow> fst st = [] \<Longrightarrow> closedBy c0 ch0 (snd st)"
  by (auto simp: openedBy_def)

lemma openedBy_after_flush:
  assumes "nonws c0 \<noteq> []" "openedBy c0 ch0 st"
  shows "openedBy c0 ch0 (fst (if b then flush st else st) @ x, snd (if b then flush st else st))"
proof (cases b)
  case True
  with closedBy_flush [OF assms] show ?thesis by (simp add: openedBy_closed)
next
  case False
  with openedBy_append [OF assms(2)] show ?thesis by simp
qed

lemma openedBy_addHeading:
  assumes "nonws c0 \<noteq> []" "openedBy c0 ch0 st"
  shows "openedBy c0 ch0 (addHeading h st)"
  unfolding addHeading_def Let_def by (rule openedBy_after_flush [OF assms])

lemma openedBy_addSlice:
  assumes "nonws c0 \<noteq> []" "openedBy c0 ch0 st"
  shows "openedBy c0 ch0 (addSlice mn mx sl st)"
  unfolding addSlice_def Let_def by (rule openedBy_after_flush [OF assms])

lemma openedBy_hardSplit:
  assumes "nonws c0 \<noteq> []" "openedBy c0 ch0 st" "hardSplit s mn mx start st = Some st'"
  shows "openedBy c0 ch0 st'"
proof -
  have "\<exists>e\<ge>length s. (\<lambda>e x. openedBy c0 ch0 x) e st'"
    by (rule hardSplit_invariant [OF assms(3), where I = "\<lambda>e x. openedBy c0 ch0 x"])
       (use assms(1,2) openedBy_addSlice in auto)
  then show ?thesis by blast
qed

lemma openedBy_addSentence:
  assumes c0: "nonws c0 \<noteq> []" and ob: "openedBy c0 ch0 st" and run: "addSentence mn mx s st = Some st'"
  shows "openedBy c0 ch0 st'"
  using run
proof (cases rule: addSentence_cases)
  case fits
  show ?thesis
  proof (cases "fst st = []")
    case True
    from closedBy_empty [OF c0 ob True] fits(2) show ?thesis by (simp add: openedBy_closed)
  next
    case False
    with fits(2) openedBy_append [OF ob, of "[SPACE] @ s"] show ?thesis by simp
  qed
next
  case full
  from closedBy_flush [OF c0 ob] full(3) show ?thesis by (simp add: openedBy_closed)
next
  case long
  from openedBy_hardSplit [OF c0 ob long(4)] show ?thesis .
next
  case short
  show ?thesis
  proof (cases "fst st = []")
    case True
    from closedBy_empty [OF c0 ob True] short(4) True show ?thesis by (simp add: openedBy_closed)
  next
    case False
    from closedBy_flush [OF c0 ob] short(4) False show ?thesis by (simp add: openedBy_closed)
  qed
qed

lemma openedBy_addSentences:
  "nonws c0 \<noteq> [] \<Longrightarrow> openedBy c0 ch0 st \<Longrightarrow> addSentences mn mx ss st = Some st'
     \<Longrightarrow> openedBy c0 ch0 st'"
proof (induction ss arbitrary: st)
  case Nil
  then show ?case by simp
next
  case (Cons s ss)
  from Cons.prems(3) obtain st1 where s1: "addSentence mn mx s st = Some st1"
    and s2: "addSentences mn mx ss st1 = Some st'" by (auto split: option.splits)
  from openedBy_addSentence [OF Cons.prems(1,2) s1] have "openedBy c0 ch0 st1" .
  from Cons.IH [OF Cons.prems(1) this s2] show ?case .
qed

lemma openedBy_addToken:
  assumes "nonws c0 \<noteq> []" "openedBy c0 ch0 st" "addToken mn mx t st = Some st'"
  shows "openedBy c0 ch0 st'"
proof (cases t)
  case (Heading h)
  with assms(3) have "st' = addHeading h st" by (simp add: addToken_def)
  with openedBy_addHeading [OF assms(1,2)] show ?thesis by simp
next
  case (TextToken b)
  with assms(3) have "addSentences mn mx (sentenceSplit b) st = Some st'" by (simp add: addToken_def)
  from openedBy_addSentences [OF assms(1,2) this] show ?thesis .
qed

lemma openedBy_addTokens:
  "nonws c0 \<noteq> [] \<Longrightarrow> openedBy c0 ch0 st \<Longrightarrow> addTokens mn mx ts st = Some st'
     \<Longrightarrow> openedBy c0 ch0 st'"
proof (induction ts arbitrary: st)
  case Nil
  then show ?case by simp
next
  case (Cons t ts)
  from Cons.prems(3) obtain st1 where s1: "addToken mn mx t st = Some st1"
    and s2: "addTokens mn mx ts st1 = Some st'" by (auto split: option.splits)
  from openedBy_addToken [OF Cons.prems(1,2) s1] have "openedBy c0 ch0 st1" .
  from Cons.IH [OF Cons.prems(1) this s2] show ?case .
qed

lemma addTokens_append:
  "addTokens mn mx (xs @ ys) st =
     (case addTokens mn mx xs st of None \<Rightarrow> None | Some st1 \<Rightarrow> addTokens mn mx ys st1)"
  by (induction xs arbitrary: st) (auto split: option.splits)

lemma addHeading_flushes:
  assumes "\<exists>c\<in>set cur. \<not> isWhiteSpace c"
  shows "addHeading h (cur, chunks) = (h @ [LF], chunks @ [cleanText cur])" and "cleanText cur \<noteq> []"
proof -
  from assms have n: "nonws cur \<noteq> []" by (auto simp: filter_empty_conv)
  then show c: "cleanText cur \<noteq> []" by (simp only: cleanText_Nil_iff simp_thms)
  from n have "trim cur \<noteq> []" by (simp only: trim_Nil_iff simp_thms)
  with c show "addHeading h (cur, chunks) = (h @ [LF], chunks @ [cleanText cur])"
    by (simp add: addHeading_def flush_def Let_def)
qed

lemma addHeading_empty: "addHeading h ([], chunks) = (h @ [LF], chunks)"
  by (simp add: addHeading_def trim_def)

lemma heading_opens_passage:
  assumes clean: "cleanText h = h" "h \<noteq> []"
    and run: "buildChunks (pre @ Heading h # post) mn mx = Some cs"
  shows "\<exists>cs1 c cs2. buildChunks pre mn mx = Some cs1 \<and> cs = cs1 @ c # cs2 \<and> prefix h c"
proof -
  from run obtain st where st: "addTokens mn mx (pre @ Heading h # post) ([], []) = Some st"
    and cs: "cs = snd (if trim (fst st) \<noteq> [] then flush st else st)"
    by (auto simp: buildChunks_def split: option.splits)
  from st obtain st1 where st1: "addTokens mn mx pre ([], []) = Some st1"
    and post: "addTokens mn mx post (addHeading h st1) = Some st"
    by (auto simp: addTokens_append addToken_def split: option.splits)
  let ?fin = "if trim (fst st1) \<noteq> [] then flush st1 else st1"
  let ?w = "fst ?fin @ (if fst ?fin \<noteq> [] then [LF] else [])"
  let ?c0 = "?w @ h @ [LF]"
  have pre: "buildChunks pre mn mx = Some (snd ?fin)" using st1 by (simp add: buildChunks_def)
  have ah: "addHeading h st1 = (?c0, snd ?fin)" by (simp add: addHeading_def Let_def)
  have w: "nonws ?w = []"
  proof (cases "trim (fst st1) \<noteq> []")
    case True
    then show ?thesis by (simp add: flush_def Let_def)
  next
    case False
    then have "nonws (fst st1) = []" by (simp only: trim_Nil_iff simp_thms)
    with False show ?thesis by simp
  qed
  from clean have nh: "nonws h \<noteq> []" using cleanText_Nil_iff [of h] by simp
  then have c0: "nonws ?c0 \<noteq> []" by simp
  have "openedBy ?c0 (snd ?fin) (addHeading h st1)" unfolding ah by (simp add: openedBy_def)
  from openedBy_addTokens [OF c0 this post] have ob: "openedBy ?c0 (snd ?fin) st" .
  have "closedBy ?c0 (snd ?fin) cs"
  proof (cases "trim (fst st) \<noteq> []")
    case True
    with cs closedBy_flush [OF c0 ob] show ?thesis by simp
  next
    case False
    then have "nonws (fst st) = []" by (simp only: trim_Nil_iff simp_thms)
    with nonws_prefix [OF _ c0, of "fst st"] have "\<not> prefix ?c0 (fst st)" by blast
    with ob have "closedBy ?c0 (snd ?fin) (snd st)" by (auto simp: openedBy_def)
    with False cs show ?thesis by simp
  qed
  then obtain new ext where n: "cs = snd ?fin @ new" "new \<noteq> []" "hd new = cleanText (?c0 @ ext)"
    by (auto simp: closedBy_def)
  have "?c0 @ ext = ?w @ h @ ([LF] @ ext)" by simp
  with clean_heading_prefix [OF clean w, of "[LF] @ ext"] n(3) have "prefix h (hd new)" by simp
  moreover from n(1,2) have "cs = snd ?fin @ hd new # tl new" by simp
  ultimately show ?thesis using pre by blast
qed

lemma two_headings:
  assumes "cleanText h1 = h1" "h1 \<noteq> []" "cleanText h2 = h2" "h2 \<noteq> []"
    and run: "buildChunks [Heading h1, TextToken b1, Heading h2, TextToken b2] mn mx = Some cs"
  shows "2 \<le> length cs \<and> prefix h1 (hd cs) \<and> (\<exists>c\<in>set (tl cs). prefix h2 c)"
proof -
  from heading_opens_passage [OF assms(3,4), of "[Heading h1, TextToken b1]" "[TextToken b2]" mn mx cs] run
  obtain cs1 c cs2 where a: "buildChunks [Heading h1, TextToken b1] mn mx = Some cs1"
    "cs = cs1 @ c # cs2" "prefix h2 c" by auto
  from heading_opens_passage [OF assms(1,2), of "[]" "[TextToken b1]" mn mx cs1] a(1)
  obtain cs0 c1 cs3 where b: "buildChunks [] mn mx = Some cs0" "cs1 = cs0 @ c1 # cs3" "prefix h1 c1"
    by auto
  from b(1) have "cs0 = []" by (simp add: buildChunks_def trim_def)
  with a b show ?thesis by auto
qed


lemma hardSplit_diverges:
  assumes "start < length s"
  shows "hardSplit s mn 0 start st = None"
proof (rule ccontr)
  assume "hardSplit s mn 0 start st \<noteq> None"
  then obtain st' where run: "hardSplit s mn 0 start st = Some st'" by auto
  have "\<exists>e\<ge>length s. (\<lambda>e x. e = start) e st'"
    by (rule hardSplit_invariant [OF run, where I = "\<lambda>e x. e = start"]) (use assms in auto)
  with assms show False by simp
qed

lemma zero_maxSize_never_returns: "buildChunks [TextToken (js ''a'')] 1 0 = None"
proof -
  have s: "sentenceSplit [97] = [[97]]" by code_simp
  have "hardSplit (js ''a'') 1 0 0 ([], []) = None" by (rule hardSplit_diverges) (simp add: js_def)
  then show ?thesis
    by (simp add: buildChunks_def addToken_def s addSentence_def Let_def js_def)
qed

text \<open>
  Claim C3. Whenever \<open>buildChunks\<close> returns, the returned chunks put end to end hold
  exactly the characters of the token texts that are not white space, in the same order,
  and no returned chunk is empty; and it returns whenever \<open>maxSize\<close> is positive.
\<close>

theorem chunks_cover_content:
  "(buildChunks tokens minSize maxSize = Some chunks \<longrightarrow>
      nonws (concat chunks) = nonws (concat (map tokenText tokens)) \<and> [] \<notin> set chunks)
   \<and> (0 < maxSize \<longrightarrow> buildChunks tokens minSize maxSize \<noteq> None)"
  using buildChunks_content [of tokens minSize maxSize chunks]
    buildChunks_returns [of maxSize tokens minSize] by auto

lemma long_chunks: "buildChunks longTokens 5 4 = Some [js ''aa. Bbbb'', js ''bbbb bb'']"
  by code_simp

theorem chunks_cover_content_witness:
  "nonws (js ''aa. Bbbb'' @ js ''bbbb bb'') = nonws (js ''aa. Bbbbbbbbbb'')
   \<and> buildChunks longTokens 5 4 \<noteq> None"
  using chunks_cover_content [of longTokens 5 4 "[js ''aa. Bbbb'', js ''bbbb bb'']"] long_chunks
  by (simp add: longTokens_def)


lemma demo_sentences:
  "sentenceSplit (js ''Hello  world. This is it.'') = [js ''Hello world.'', js ''This is it.'']"
  "sentenceSplit (js ''More text.'') = [js ''More text.'']"
  by code_simp+



text \<open>
  The cut of a long sentence is reached only while the buffer is below \<open>minSize\<close>; after
  a full buffer the sentence becomes the next chunk whole.
\<close>

lemma long_sentence_kept_whole:
  "buildChunks [TextToken (js ''aaa. Bbbbbbbbbb'')] 1 4 = Some [js ''aaa.'', js ''Bbbbbbbbbb'']"
  by code_simp


lemma demo_chunks:
  "buildChunks demoTokens 10 20 =
     Some [js ''Articolul 1'', js ''Hello world.'', js ''This is it.'',
           js ''Articolul 2'', js ''More text.'']"
  by code_simp

lemma demo_clean: "cleanText (js ''Articolul 1'') = js ''Articolul 1''"
  "cleanText (js ''Articolul 2'') = js ''Articolul 2''"
  by code_simp+



end
